theory Spec2Isabelle
  imports Main "HOL-Library.Monad_Syntax"
begin

section \<open>The insertion-ordered hash map of src/linked_hashmap/linked_hashmap.hpp\<close>

text \<open>
  The class \<^verbatim>\<open>sjtu::linked_hashmap<Key, T, Hash, Equal>\<close> is embedded over an explicit
  store of nodes.  A \<^verbatim>\<open>Node *\<close> is an \<open>addr option\<close> (\<open>None\<close> is \<^verbatim>\<open>nullptr\<close>); the
  store maps the addresses handed out by \<^verbatim>\<open>new\<close> to node contents, so that the two
  linkages of one node (the bucket chain and the insertion-order list) and the sharing
  of one store by several containers are visible in the model.

  Every function returns an \<open>option\<close>: \<open>None\<close> stands for "no defined result", that is
  a dereference of a null or dangling pointer, an index outside the bucket array, a
  division by zero, or a loop that does not terminate.  The two exceptions of the class,
  \<^verbatim>\<open>invalid_iterator\<close> and \<^verbatim>\<open>index_out_of_bound\<close>, are values of type \<open>error\<close>.

  \<^verbatim>\<open>Hash\<close> is a parameter \<open>hash\<close> of every function that needs it; \<^verbatim>\<open>Equal\<close> is its
  default \<^verbatim>\<open>std::equal_to<Key>\<close>, that is HOL equality.  \<^verbatim>\<open>size_t\<close> values are
  natural numbers: a count is bounded by the number of allocated nodes, so no
  wrap-around is reachable, and a decrement of a zero count has no result here.
\<close>

subsection \<open>Nodes and the store\<close>

type_synonym addr = nat

record ('k, 'v) Node =
  val :: "('k \<times> 'v) option"
  time_lst :: "addr option"
  time_nxt :: "addr option"
  nxt :: "addr option"

record ('k, 'v) heap =
  nodes :: "addr \<Rightarrow> ('k, 'v) Node option"
  brk :: addr

definition empty_heap :: "('k, 'v) heap" where
  "empty_heap = \<lparr>nodes = (\<lambda>a. None), brk = 0\<rparr>"

text \<open>\<^verbatim>\<open>new Node{...}\<close>: the next unused address; addresses are never handed out twice.\<close>

definition new_Node :: "('k, 'v) Node \<Rightarrow> ('k, 'v) heap \<Rightarrow> addr \<times> ('k, 'v) heap" where
  "new_Node n h = (brk h, h\<lparr>nodes := (nodes h)(brk h \<mapsto> n), brk := Suc (brk h)\<rparr>)"

text \<open>\<^verbatim>\<open>delete p\<close> of an allocated node (the destructor also deletes the pair it owns).\<close>

definition delete_Node :: "addr \<Rightarrow> ('k, 'v) heap \<Rightarrow> ('k, 'v) heap option" where
  "delete_Node p h =
     (case nodes h p of None \<Rightarrow> None
      | Some n \<Rightarrow> Some (h\<lparr>nodes := (nodes h)(p := None)\<rparr>))"

text \<open>A write \<^verbatim>\<open>p->field = ...\<close> through a node pointer.\<close>

definition wr :: "addr \<Rightarrow> (('k, 'v) Node \<Rightarrow> ('k, 'v) Node) \<Rightarrow> ('k, 'v) heap \<Rightarrow> ('k, 'v) heap option" where
  "wr p f h =
     (case nodes h p of None \<Rightarrow> None
      | Some n \<Rightarrow> Some (h\<lparr>nodes := (nodes h)(p \<mapsto> f n)\<rparr>))"

text \<open>The two constructors of \<^verbatim>\<open>Node\<close>.\<close>

definition Node0 :: "('k, 'v) Node" where
  "Node0 = \<lparr>val = None, time_lst = None, time_nxt = None, nxt = None\<rparr>"

definition Node4 :: "'k \<times> 'v \<Rightarrow> addr option \<Rightarrow> addr option \<Rightarrow> addr option \<Rightarrow> ('k, 'v) Node" where
  "Node4 v lst nx p = \<lparr>val = Some v, time_lst = lst, time_nxt = nx, nxt = p\<rparr>"

subsection \<open>The container object\<close>

text \<open>
  The data members of the class, and \<open>this\<close>, the address of the object, which the
  iterators store as \<^verbatim>\<open>source\<close>.  The bucket array \<^verbatim>\<open>buc\<close> is owned by the object alone
  and replaced as a whole, so it is a list held in the record.
\<close>

record linked_hashmap =
  this :: addr
  len :: nat
  load :: nat
  hd_node :: addr
  tl_node :: addr
  buc :: "addr option list"

definition LEN :: nat where
  "LEN = 13"

datatype error = invalid_iterator | index_out_of_bound

record iterator =
  source :: "addr option"
  at :: "addr option"

subsection \<open>Private member functions\<close>

partial_function (option) ChangeSpace_loop ::
  "('k \<Rightarrow> nat) \<Rightarrow> addr option \<Rightarrow> linked_hashmap \<Rightarrow> ('k, 'v) heap \<Rightarrow> (linked_hashmap \<times> ('k, 'v) heap) option"
where
  "ChangeSpace_loop hash it m h =
     (if it = Some (tl_node m) then Some (m, h)
      else do {
        a \<leftarrow> it;
        n \<leftarrow> nodes h a;
        kv \<leftarrow> val n;
        (if len m = 0 \<or> length (buc m) \<le> hash (fst kv) mod len m then None
         else do {
           let index = hash (fst kv) mod len m;
           h1 \<leftarrow> wr a (\<lambda>n. n\<lparr>nxt := buc m ! index\<rparr>) h;
           let m1 = m\<lparr>buc := (buc m)[index := Some a]\<rparr>;
           n1 \<leftarrow> nodes h1 a;
           ChangeSpace_loop hash (time_nxt n1) m1 h1
         })
      })"

declare ChangeSpace_loop.simps [code]

definition ChangeSpace ::
  "('k \<Rightarrow> nat) \<Rightarrow> int \<Rightarrow> linked_hashmap \<Rightarrow> ('k, 'v) heap \<Rightarrow> (linked_hashmap \<times> ('k, 'v) heap) option"
where
  "ChangeSpace hash d m h =
     (let len1 = (if d > 0 then or (push_bit (nat d) (len m)) 1 else drop_bit (nat (- d)) (len m));
          m1 = m\<lparr>len := len1, buc := replicate len1 None\<rparr>
      in do {
        nh \<leftarrow> nodes h (hd_node m1);
        ChangeSpace_loop hash (time_nxt nh) m1 h
      })"

definition Add ::
  "('k \<Rightarrow> nat) \<Rightarrow> 'k \<times> 'v \<Rightarrow> linked_hashmap \<Rightarrow> ('k, 'v) heap \<Rightarrow> (addr \<times> linked_hashmap \<times> ('k, 'v) heap) option"
where
  "Add hash key m h = do {
     (m1, h1) \<leftarrow> (if load m > len m then ChangeSpace hash 1 (m\<lparr>load := load m + 1\<rparr>) h
                  else Some (m\<lparr>load := load m + 1\<rparr>, h));
     (if len m1 = 0 \<or> length (buc m1) \<le> hash (fst key) mod len m1 then None
      else do {
        let index = hash (fst key) mod len m1;
        nt \<leftarrow> nodes h1 (tl_node m1);
        let (p, h2) = new_Node (Node4 key (time_lst nt) (Some (tl_node m1)) (buc m1 ! index)) h1;
        nt2 \<leftarrow> nodes h2 (tl_node m1);
        lst \<leftarrow> time_lst nt2;
        h3 \<leftarrow> wr lst (\<lambda>n. n\<lparr>time_nxt := Some p\<rparr>) h2;
        h4 \<leftarrow> wr (tl_node m1) (\<lambda>n. n\<lparr>time_lst := Some p\<rparr>) h3;
        Some (p, m1\<lparr>buc := (buc m1)[index := Some p]\<rparr>, h4)
      })
   }"

definition Del ::
  "('k \<Rightarrow> nat) \<Rightarrow> addr \<Rightarrow> linked_hashmap \<Rightarrow> ('k, 'v) heap \<Rightarrow> (linked_hashmap \<times> ('k, 'v) heap) option"
where
  "Del hash p m h = do {
     np \<leftarrow> nodes h p;
     l \<leftarrow> time_lst np;
     h1 \<leftarrow> wr l (\<lambda>n. n\<lparr>time_nxt := time_nxt np\<rparr>) h;
     np1 \<leftarrow> nodes h1 p;
     x \<leftarrow> time_nxt np1;
     h2 \<leftarrow> wr x (\<lambda>n. n\<lparr>time_lst := time_lst np1\<rparr>) h1;
     (if load m = 0 then None
      else do {
        let m1 = m\<lparr>load := load m - 1\<rparr>;
        h3 \<leftarrow> delete_Node p h2;
        (if len m1 > LEN \<and> push_bit 2 (load m1) < len m1 then ChangeSpace hash (- 1) m1 h3
         else Some (m1, h3))
      })
   }"

partial_function (option) ClearNode_loop ::
  "('k \<Rightarrow> nat) \<Rightarrow> addr option \<Rightarrow> linked_hashmap \<Rightarrow> ('k, 'v) heap \<Rightarrow> (linked_hashmap \<times> ('k, 'v) heap) option"
where
  "ClearNode_loop hash it m h =
     (if it = Some (tl_node m) then Some (m, h)
      else do {
        a \<leftarrow> it;
        n \<leftarrow> nodes h a;
        let tmp = time_nxt n;
        (m1, h1) \<leftarrow> Del hash a m h;
        ClearNode_loop hash tmp m1 h1
      })"

declare ClearNode_loop.simps [code]

definition ClearNode ::
  "('k \<Rightarrow> nat) \<Rightarrow> linked_hashmap \<Rightarrow> ('k, 'v) heap \<Rightarrow> (linked_hashmap \<times> ('k, 'v) heap) option"
where
  "ClearNode hash m h = do {
     let m1 = m\<lparr>len := LEN\<rparr>;
     nh \<leftarrow> nodes h (hd_node m1);
     ClearNode_loop hash (time_nxt nh) m1 h
   }"

partial_function (option) Find_loop ::
  "'k \<Rightarrow> addr option \<Rightarrow> linked_hashmap \<Rightarrow> ('k, 'v) heap \<Rightarrow> addr option"
where
  "Find_loop x it m h =
     (case it of
        None \<Rightarrow> Some (tl_node m)
      | Some a \<Rightarrow> do {
          n \<leftarrow> nodes h a;
          kv \<leftarrow> val n;
          (if x = fst kv then Some a else Find_loop x (nxt n) m h)
        })"

declare Find_loop.simps [code]

definition Find ::
  "('k \<Rightarrow> nat) \<Rightarrow> 'k \<Rightarrow> linked_hashmap \<Rightarrow> ('k, 'v) heap \<Rightarrow> addr option"
where
  "Find hash x m h =
     (if len m = 0 \<or> length (buc m) \<le> hash x mod len m then None
      else Find_loop x (buc m ! (hash x mod len m)) m h)"

subsection \<open>Construction\<close>

text \<open>
  \<^verbatim>\<open>linked_hashmap()\<close>, constructing the object at address \<open>self\<close>.
\<close>

definition ctor :: "addr \<Rightarrow> ('k, 'v) heap \<Rightarrow> (linked_hashmap \<times> ('k, 'v) heap) option" where
  "ctor self h =
     (let (hd0, h1) = new_Node Node0 h;
          (tl0, h2) = new_Node Node0 h1;
          m = \<lparr>this = self, len = LEN, load = 0, hd_node = hd0, tl_node = tl0,
               buc = replicate LEN None\<rparr>
      in do {
        h3 \<leftarrow> wr (hd_node m) (\<lambda>n. n\<lparr>time_nxt := Some (tl_node m)\<rparr>) h2;
        h4 \<leftarrow> wr (tl_node m) (\<lambda>n. n\<lparr>time_lst := Some (hd_node m)\<rparr>) h3;
        Some (m, h4)
      })"

text \<open>
  \<^verbatim>\<open>linked_hashmap(const linked_hashmap &obj)\<close>: the loop walks the insertion-order list
  of \<open>obj\<close> and adds a copy of every pair to the object under construction.
\<close>

partial_function (option) copy_loop ::
  "('k \<Rightarrow> nat) \<Rightarrow> addr option \<Rightarrow> linked_hashmap \<Rightarrow> linked_hashmap \<Rightarrow> ('k, 'v) heap \<Rightarrow> (linked_hashmap \<times> ('k, 'v) heap) option"
where
  "copy_loop hash it obj m h =
     (if it = Some (tl_node obj) then Some (m, h)
      else do {
        a \<leftarrow> it;
        n \<leftarrow> nodes h a;
        kv \<leftarrow> val n;
        (p, m1, h1) \<leftarrow> Add hash kv m h;
        n1 \<leftarrow> nodes h1 a;
        copy_loop hash (time_nxt n1) obj m1 h1
      })"

declare copy_loop.simps [code]

definition copy_ctor ::
  "('k \<Rightarrow> nat) \<Rightarrow> addr \<Rightarrow> linked_hashmap \<Rightarrow> ('k, 'v) heap \<Rightarrow> (linked_hashmap \<times> ('k, 'v) heap) option"
where
  "copy_ctor hash self obj h =
     (let (hd0, h1) = new_Node Node0 h;
          (tl0, h2) = new_Node Node0 h1;
          m = \<lparr>this = self, len = len obj, load = 0, hd_node = hd0, tl_node = tl0,
               buc = replicate (len obj) None\<rparr>
      in do {
        h3 \<leftarrow> wr (hd_node m) (\<lambda>n. n\<lparr>time_nxt := Some (tl_node m)\<rparr>) h2;
        h4 \<leftarrow> wr (tl_node m) (\<lambda>n. n\<lparr>time_lst := Some (hd_node m)\<rparr>) h3;
        nh \<leftarrow> nodes h4 (hd_node obj);
        copy_loop hash (time_nxt nh) obj m h4
      })"

subsection \<open>Element access\<close>

text \<open>
  A reference \<^verbatim>\<open>T &\<close> to the mapped value of a node is the address of that node;
  \<open>ref_get\<close> reads through it and \<open>ref_set\<close> assigns through it.  A public member
  function that can throw returns the exception or its result together with the
  container and the store as they are when it returns or throws.
\<close>

definition ref_get :: "addr \<Rightarrow> ('k, 'v) heap \<Rightarrow> 'v option" where
  "ref_get r h = do { n \<leftarrow> nodes h r; kv \<leftarrow> val n; Some (snd kv) }"

definition ref_set :: "addr \<Rightarrow> 'v \<Rightarrow> ('k, 'v) heap \<Rightarrow> ('k, 'v) heap option" where
  "ref_set r v h = do { n \<leftarrow> nodes h r; kv \<leftarrow> val n; wr r (\<lambda>n. n\<lparr>val := Some (fst kv, v)\<rparr>) h }"

definition at_lhm ::
  "('k \<Rightarrow> nat) \<Rightarrow> 'k \<Rightarrow> linked_hashmap \<Rightarrow> ('k, 'v) heap \<Rightarrow> ((error + addr) \<times> linked_hashmap \<times> ('k, 'v) heap) option"
where
  "at_lhm hash key m h = do {
     tmp \<leftarrow> Find hash key m h;
     (if tmp = tl_node m then Some (Inl index_out_of_bound, m, h)
      else do { n \<leftarrow> nodes h tmp; kv \<leftarrow> val n; Some (Inr tmp, m, h) })
   }"

definition at_const ::
  "('k \<Rightarrow> nat) \<Rightarrow> 'k \<Rightarrow> linked_hashmap \<Rightarrow> ('k, 'v) heap \<Rightarrow> ((error + addr) \<times> linked_hashmap \<times> ('k, 'v) heap) option"
where
  "at_const hash key m h = do {
     tmp \<leftarrow> Find hash key m h;
     (if tmp = tl_node m then Some (Inl index_out_of_bound, m, h)
      else do { n \<leftarrow> nodes h tmp; kv \<leftarrow> val n; Some (Inr tmp, m, h) })
   }"

text \<open>\<^verbatim>\<open>T &operator[](const Key &)\<close>; \<open>dflt\<close> is the value-initialised \<^verbatim>\<open>T{}\<close>.\<close>

definition subscript ::
  "('k \<Rightarrow> nat) \<Rightarrow> 'v \<Rightarrow> 'k \<Rightarrow> linked_hashmap \<Rightarrow> ('k, 'v) heap \<Rightarrow> (addr \<times> linked_hashmap \<times> ('k, 'v) heap) option"
where
  "subscript hash dflt key m h = do {
     tmp \<leftarrow> Find hash key m h;
     (if tmp = tl_node m then do {
        (p, m1, h1) \<leftarrow> Add hash (key, dflt) m h;
        n \<leftarrow> nodes h1 p;
        kv \<leftarrow> val n;
        Some (p, m1, h1)
      }
      else do { n \<leftarrow> nodes h tmp; kv \<leftarrow> val n; Some (tmp, m, h) })
   }"

text \<open>\<^verbatim>\<open>const T &operator[](const Key &) const\<close>.\<close>

definition subscript_const ::
  "('k \<Rightarrow> nat) \<Rightarrow> 'k \<Rightarrow> linked_hashmap \<Rightarrow> ('k, 'v) heap \<Rightarrow> ((error + addr) \<times> linked_hashmap \<times> ('k, 'v) heap) option"
where
  "subscript_const hash key m h = at_const hash key m h"

subsection \<open>Iterators\<close>

text \<open>
  \<^verbatim>\<open>iterator\<close> and \<^verbatim>\<open>const_iterator\<close> have the same members and the same code, so one
  record stands for both.  The operators that read \<^verbatim>\<open>source->tl\<close> or \<^verbatim>\<open>source->hd\<close>
  take the object \<open>m\<close> that \<open>source\<close> points to; they have no result for another one.
\<close>

definition begin_lhm :: "linked_hashmap \<Rightarrow> ('k, 'v) heap \<Rightarrow> iterator option" where
  "begin_lhm m h = do { n \<leftarrow> nodes h (hd_node m); Some \<lparr>source = Some (this m), at = time_nxt n\<rparr> }"

definition cbegin :: "linked_hashmap \<Rightarrow> ('k, 'v) heap \<Rightarrow> iterator option" where
  "cbegin m h = do { n \<leftarrow> nodes h (hd_node m); Some \<lparr>source = Some (this m), at = time_nxt n\<rparr> }"

definition end_lhm :: "linked_hashmap \<Rightarrow> iterator" where
  "end_lhm m = \<lparr>source = Some (this m), at = Some (tl_node m)\<rparr>"

definition cend :: "linked_hashmap \<Rightarrow> iterator" where
  "cend m = \<lparr>source = Some (this m), at = Some (tl_node m)\<rparr>"

definition iterator_inc :: "linked_hashmap \<Rightarrow> ('k, 'v) heap \<Rightarrow> iterator \<Rightarrow> (error + iterator) option" where
  "iterator_inc m h it =
     (if source it \<noteq> Some (this m) then None
      else if at it = Some (tl_node m) then Some (Inl invalid_iterator)
      else do { a \<leftarrow> at it; n \<leftarrow> nodes h a; Some (Inr (it\<lparr>at := time_nxt n\<rparr>)) })"

definition iterator_dec :: "linked_hashmap \<Rightarrow> ('k, 'v) heap \<Rightarrow> iterator \<Rightarrow> (error + iterator) option" where
  "iterator_dec m h it =
     (if source it \<noteq> Some (this m) then None
      else do {
        a \<leftarrow> at it;
        n \<leftarrow> nodes h a;
        (if time_lst n = Some (hd_node m) then Some (Inl invalid_iterator)
         else Some (Inr (it\<lparr>at := time_lst n\<rparr>)))
      })"

definition iterator_eq :: "iterator \<Rightarrow> iterator \<Rightarrow> bool" where
  "iterator_eq it rhs = (at it = at rhs)"

definition iterator_deref :: "('k, 'v) heap \<Rightarrow> iterator \<Rightarrow> ('k \<times> 'v) option" where
  "iterator_deref h it = do { a \<leftarrow> at it; n \<leftarrow> nodes h a; val n }"

subsection \<open>Modifiers and lookup\<close>

definition empty_lhm :: "linked_hashmap \<Rightarrow> bool" where
  "empty_lhm m = (load m = 0)"

definition size_lhm :: "linked_hashmap \<Rightarrow> nat" where
  "size_lhm m = load m"

definition clear ::
  "('k \<Rightarrow> nat) \<Rightarrow> linked_hashmap \<Rightarrow> ('k, 'v) heap \<Rightarrow> (linked_hashmap \<times> ('k, 'v) heap) option"
where
  "clear hash m h = do {
     (m1, h1) \<leftarrow> ClearNode hash m h;
     Some (m1\<lparr>buc := replicate (len m1) None\<rparr>, h1)
   }"

definition insert_lhm ::
  "('k \<Rightarrow> nat) \<Rightarrow> 'k \<times> 'v \<Rightarrow> linked_hashmap \<Rightarrow> ('k, 'v) heap \<Rightarrow> ((iterator \<times> bool) \<times> linked_hashmap \<times> ('k, 'v) heap) option"
where
  "insert_lhm hash value m h = do {
     a \<leftarrow> Find hash (fst value) m h;
     (if a \<noteq> tl_node m then Some ((\<lparr>source = Some (this m), at = Some a\<rparr>, False), m, h)
      else do {
        (p, m1, h1) \<leftarrow> Add hash value m h;
        Some ((\<lparr>source = Some (this m1), at = Some p\<rparr>, True), m1, h1)
      })
   }"

text \<open>The loop of \<^verbatim>\<open>erase\<close> that looks for the predecessor of \<open>p\<close> in its bucket chain.\<close>

partial_function (option) erase_loop :: "addr option \<Rightarrow> addr \<Rightarrow> ('k, 'v) heap \<Rightarrow> addr option" where
  "erase_loop it p h = do {
     a \<leftarrow> it;
     n \<leftarrow> nodes h a;
     (if nxt n \<noteq> Some p then erase_loop (nxt n) p h else Some a)
   }"

declare erase_loop.simps [code]

definition erase ::
  "('k \<Rightarrow> nat) \<Rightarrow> iterator \<Rightarrow> linked_hashmap \<Rightarrow> ('k, 'v) heap \<Rightarrow> ((error + unit) \<times> linked_hashmap \<times> ('k, 'v) heap) option"
where
  "erase hash pos m h =
     (if at pos = Some (tl_node m) \<or> source pos \<noteq> Some (this m) then Some (Inl invalid_iterator, m, h)
      else do {
        p \<leftarrow> at pos;
        np \<leftarrow> nodes h p;
        kv \<leftarrow> val np;
        (if len m = 0 \<or> length (buc m) \<le> hash (fst kv) mod len m then None
         else do {
           let index = hash (fst kv) mod len m;
           (m1, h1) \<leftarrow>
             (if buc m ! index = Some p then Some (m\<lparr>buc := (buc m)[index := nxt np]\<rparr>, h)
              else do {
                it \<leftarrow> erase_loop (buc m ! index) p h;
                n \<leftarrow> nodes h it;
                b \<leftarrow> nxt n;
                nb \<leftarrow> nodes h b;
                h1 \<leftarrow> wr it (\<lambda>n. n\<lparr>nxt := nxt nb\<rparr>) h;
                Some (m, h1)
              });
           (m2, h2) \<leftarrow> Del hash p m1 h1;
           Some (Inr (), m2, h2)
         })
      })"

definition count_lhm :: "('k \<Rightarrow> nat) \<Rightarrow> 'k \<Rightarrow> linked_hashmap \<Rightarrow> ('k, 'v) heap \<Rightarrow> nat option" where
  "count_lhm hash key m h = do { a \<leftarrow> Find hash key m h; Some (if a \<noteq> tl_node m then 1 else 0) }"

definition find_lhm :: "('k \<Rightarrow> nat) \<Rightarrow> 'k \<Rightarrow> linked_hashmap \<Rightarrow> ('k, 'v) heap \<Rightarrow> iterator option" where
  "find_lhm hash key m h = do { a \<leftarrow> Find hash key m h; Some \<lparr>source = Some (this m), at = Some a\<rparr> }"

subsection \<open>Iterating from begin to end\<close>

text \<open>
  The client loop \<^verbatim>\<open>for (it = m.begin(); it != m.end(); ++it) out.push_back(*it);\<close>
  It has no result when an iterator operation throws or is undefined.
\<close>

partial_function (option) iterate ::
  "linked_hashmap \<Rightarrow> ('k, 'v) heap \<Rightarrow> iterator \<Rightarrow> ('k \<times> 'v) list option"
where
  "iterate m h it =
     (if iterator_eq it (end_lhm m) then Some []
      else do {
        kv \<leftarrow> iterator_deref h it;
        r \<leftarrow> iterator_inc m h it;
        (case r of
           Inl e \<Rightarrow> None
         | Inr it1 \<Rightarrow> do { rest \<leftarrow> iterate m h it1; Some (kv # rest) })
      })"

declare iterate.simps [code]

definition to_list :: "linked_hashmap \<Rightarrow> ('k, 'v) heap \<Rightarrow> ('k \<times> 'v) list option" where
  "to_list m h = do { b \<leftarrow> begin_lhm m h; iterate m h b }"

section \<open>Abstraction of the pointer structure\<close>

text \<open>
  The definitions below describe the store from outside: the fields of an allocated node,
  the insertion-order list between the two sentinels, the chain of a bucket, the
  invariant of a container, one public mutation, and the states a program can reach.
\<close>

definition fld :: "(('k, 'v) Node \<Rightarrow> 'a) \<Rightarrow> ('k, 'v) heap \<Rightarrow> addr \<Rightarrow> 'a option" where
  "fld f h a = map_option f (nodes h a)"

definition entry :: "('k, 'v) heap \<Rightarrow> addr \<Rightarrow> ('k \<times> 'v) option" where
  "entry h a = Option.bind (nodes h a) val"

definition key :: "('k, 'v) heap \<Rightarrow> addr \<Rightarrow> 'k" where
  "key h a = fst (the (entry h a))"

fun dll :: "('k, 'v) heap \<Rightarrow> addr \<Rightarrow> addr list \<Rightarrow> addr \<Rightarrow> bool" where
  "dll h p [] q = (fld time_nxt h p = Some (Some q) \<and> fld time_lst h q = Some (Some p))"
| "dll h p (a # as) q =
     (fld time_nxt h p = Some (Some a) \<and> fld time_lst h a = Some (Some p) \<and> dll h a as q)"

fun tpath :: "('k, 'v) heap \<Rightarrow> addr option \<Rightarrow> addr list \<Rightarrow> addr \<Rightarrow> bool" where
  "tpath h it [] q = (it = Some q)"
| "tpath h it (a # as) q =
     (it = Some a \<and> (case fld time_nxt h a of None \<Rightarrow> False | Some x \<Rightarrow> tpath h x as q))"

fun chain :: "('k, 'v) heap \<Rightarrow> addr option \<Rightarrow> addr list \<Rightarrow> bool" where
  "chain h p [] = (p = None)"
| "chain h p (a # as) =
     (p = Some a \<and> (case fld nxt h a of None \<Rightarrow> False | Some x \<Rightarrow> chain h x as))"

definition olist :: "linked_hashmap \<Rightarrow> ('k, 'v) heap \<Rightarrow> addr list \<Rightarrow> bool" where
  "olist m h as \<longleftrightarrow>
     dll h (hd_node m) as (tl_node m) \<and> distinct (hd_node m # as @ [tl_node m]) \<and>
     (\<forall>a\<in>set as. entry h a \<noteq> None) \<and> distinct (map (key h) as) \<and>
     (\<forall>a\<in>set (hd_node m # as @ [tl_node m]). a < brk h)"

definition bk :: "('k \<Rightarrow> nat) \<Rightarrow> linked_hashmap \<Rightarrow> ('k, 'v) heap \<Rightarrow> addr list \<Rightarrow> bool" where
  "bk hash m h as \<longleftrightarrow>
     0 < len m \<and> length (buc m) = len m \<and>
     (\<forall>i<len m. \<exists>cs. chain h (buc m ! i) cs \<and> distinct cs \<and>
        set cs = {a \<in> set as. hash (key h a) mod len m = i})"

definition caps :: "nat \<Rightarrow> bool" where
  "caps n \<longleftrightarrow> (\<exists>j. Suc n = 14 * 2 ^ j)"

definition invl :: "('k \<Rightarrow> nat) \<Rightarrow> linked_hashmap \<Rightarrow> ('k, 'v) heap \<Rightarrow> addr list \<Rightarrow> bool" where
  "invl hash m h as \<longleftrightarrow>
     olist m h as \<and> bk hash m h as \<and> load m = length as \<and> caps (len m) \<and>
     entry h (hd_node m) = None \<and> entry h (tl_node m) = None"

definition nxt_only :: "addr set \<Rightarrow> ('k, 'v) heap \<Rightarrow> ('k, 'v) heap \<Rightarrow> bool" where
  "nxt_only S h h' \<longleftrightarrow>
     brk h' = brk h \<and> (\<forall>x. x \<notin> S \<longrightarrow> nodes h' x = nodes h x) \<and>
     (\<forall>x. fld val h' x = fld val h x \<and> fld time_lst h' x = fld time_lst h x \<and>
          fld time_nxt h' x = fld time_nxt h x)"

definition fp :: "linked_hashmap \<Rightarrow> addr list \<Rightarrow> addr set" where
  "fp m as = set (hd_node m # as @ [tl_node m])"

definition ents :: "('k, 'v) heap \<Rightarrow> addr list \<Rightarrow> ('k \<times> 'v) list" where
  "ents h as = map (\<lambda>a. the (entry h a)) as"

inductive step ::
  "('k \<Rightarrow> nat) \<Rightarrow> linked_hashmap \<times> ('k, 'v) heap \<Rightarrow> linked_hashmap \<times> ('k, 'v) heap \<Rightarrow> bool"
  for hash :: "'k \<Rightarrow> nat"
where
  step_insert: "insert_lhm hash value m h = Some (r, m', h') \<Longrightarrow> step hash (m, h) (m', h')"
| step_erase: "erase hash pos m h = Some (e, m', h') \<Longrightarrow> step hash (m, h) (m', h')"
| step_subscript: "subscript hash dflt k m h = Some (p, m', h') \<Longrightarrow> step hash (m, h) (m', h')"
| step_clear: "clear hash m h = Some (m', h') \<Longrightarrow> step hash (m, h) (m', h')"
| step_assign: "at_lhm hash k m h = Some (Inr p, m', h1) \<Longrightarrow> ref_set p v h1 = Some h' \<Longrightarrow>
     step hash (m, h) (m', h')"

inductive reachable :: "('k \<Rightarrow> nat) \<Rightarrow> linked_hashmap \<Rightarrow> ('k, 'v) heap \<Rightarrow> bool"
  for hash :: "'k \<Rightarrow> nat"
where
  reach_ctor: "ctor self empty_heap = Some (m, h) \<Longrightarrow> reachable hash m h"
| reach_copy: "reachable hash obj h \<Longrightarrow> copy_ctor hash self obj h = Some (m, h') \<Longrightarrow>
     reachable hash m h'"
| reach_step: "reachable hash m h \<Longrightarrow> step hash (m, h) (m', h') \<Longrightarrow> reachable hash m' h'"

definition abs_map :: "('k \<Rightarrow> nat) \<Rightarrow> linked_hashmap \<Rightarrow> ('k, 'v) heap \<Rightarrow> ('k \<times> 'v) list \<Rightarrow> bool" where
  "abs_map hash m h es \<longleftrightarrow> reachable hash m h \<and> to_list m h = Some es"

text \<open>
  A client program is a list of commands run against one container: \<open>Insert k v\<close> is
  \<^verbatim>\<open>m.insert({k, v})\<close>, \<open>Erase k\<close> is \<^verbatim>\<open>m.erase(m.find(k))\<close>, where an exception thrown by
  \<open>erase\<close> is caught and the program goes on, and \<open>Assign k v\<close> is \<^verbatim>\<open>m[k] = v\<close>.
\<close>

datatype ('k, 'v) command = Insert 'k 'v | Erase 'k | Assign 'k 'v

fun run ::
  "('k \<Rightarrow> nat) \<Rightarrow> 'v \<Rightarrow> ('k, 'v) command list \<Rightarrow> linked_hashmap \<Rightarrow> ('k, 'v) heap \<Rightarrow> (linked_hashmap \<times> ('k, 'v) heap) option"
where
  "run hash dflt [] m h = Some (m, h)"
| "run hash dflt (Insert k v # cs) m h =
     do { (r, m1, h1) \<leftarrow> insert_lhm hash (k, v) m h; run hash dflt cs m1 h1 }"
| "run hash dflt (Erase k # cs) m h =
     do { it \<leftarrow> find_lhm hash k m h; (r, m1, h1) \<leftarrow> erase hash it m h; run hash dflt cs m1 h1 }"
| "run hash dflt (Assign k v # cs) m h =
     do { (p, m1, h1) \<leftarrow> subscript hash dflt k m h; h2 \<leftarrow> ref_set p v h1; run hash dflt cs m1 h2 }"

text \<open>
  The insertion-ordered map of the specification, as a list of pairs: a new key goes to the
  tail, a present key keeps its place, an erased key leaves the list.
\<close>

fun spec_run :: "('k, 'v) command list \<Rightarrow> ('k \<times> 'v) list \<Rightarrow> ('k \<times> 'v) list" where
  "spec_run [] es = es"
| "spec_run (Insert k v # cs) es =
     spec_run cs (if k \<in> fst ` set es then es else es @ [(k, v)])"
| "spec_run (Erase k # cs) es = spec_run cs (filter (\<lambda>kv. fst kv \<noteq> k) es)"
| "spec_run (Assign k v # cs) es =
     spec_run cs (if k \<in> fst ` set es then map (\<lambda>kv. if fst kv = k then (k, v) else kv) es
                  else es @ [(k, v)])"

text \<open>The keys a program inserts, in the order of the commands.\<close>

fun inserted :: "('k, 'v) command list \<Rightarrow> 'k list" where
  "inserted [] = []"
| "inserted (Insert k v # cs) = k # inserted cs"
| "inserted (Erase k # cs) = inserted cs"
| "inserted (Assign k v # cs) = k # inserted cs"

fun erases :: "('k, 'v) command list \<Rightarrow> 'k list" where
  "erases [] = []"
| "erases (Insert k v # cs) = erases cs"
| "erases (Erase k # cs) = k # erases cs"
| "erases (Assign k v # cs) = erases cs"

text \<open>
  The dual-structure invariant, read off the store by following pointers: the nodes
  reached from a bucket by \<^verbatim>\<open>nxt\<close> hops, the nodes reached from \<^verbatim>\<open>hd->time_nxt\<close> by
  \<^verbatim>\<open>time_nxt\<close> hops up to \<^verbatim>\<open>tl\<close>, and the two inclusions between them.
\<close>

partial_function (option) chain_nodes :: "('k, 'v) heap \<Rightarrow> addr option \<Rightarrow> addr list option" where
  "chain_nodes h p =
     (case p of
        None \<Rightarrow> Some []
      | Some a \<Rightarrow> do { n \<leftarrow> nodes h a; r \<leftarrow> chain_nodes h (nxt n); Some (a # r) })"

declare chain_nodes.simps [code]

partial_function (option) order_nodes ::
  "linked_hashmap \<Rightarrow> ('k, 'v) heap \<Rightarrow> addr option \<Rightarrow> addr list option"
where
  "order_nodes m h it =
     (if it = Some (tl_node m) then Some []
      else do { a \<leftarrow> it; n \<leftarrow> nodes h a; r \<leftarrow> order_nodes m h (time_nxt n); Some (a # r) })"

declare order_nodes.simps [code]

definition live_nodes :: "linked_hashmap \<Rightarrow> ('k, 'v) heap \<Rightarrow> addr list option" where
  "live_nodes m h = do { n \<leftarrow> nodes h (hd_node m); order_nodes m h (time_nxt n) }"

definition dual_structure :: "('k \<Rightarrow> nat) \<Rightarrow> linked_hashmap \<Rightarrow> ('k, 'v) heap \<Rightarrow> bool" where
  "dual_structure hash m h \<longleftrightarrow>
     (case live_nodes m h of
        None \<Rightarrow> False
      | Some as \<Rightarrow>
          0 < len m \<and> length (buc m) = len m \<and>
          (\<forall>n\<in>set as.
             case entry h n of
               None \<Rightarrow> False
             | Some kv \<Rightarrow>
                 (case chain_nodes h (buc m ! (hash (fst kv) mod len m)) of
                    None \<Rightarrow> False
                  | Some cs \<Rightarrow> n \<in> set cs)) \<and>
          (\<forall>i\<in>{0..<len m}.
             case chain_nodes h (buc m ! i) of
               None \<Rightarrow> False
             | Some cs \<Rightarrow> set cs \<subseteq> set as))"

section \<open>Correctness of the member functions\<close>

lemma dll_split: "dll h p (xs @ a # ys) q = (dll h p xs a \<and> dll h a ys q)"
  by (induction xs arbitrary: p) auto

lemma dll_cong:
  "(\<forall>x\<in>set (p # as). fld time_nxt h' x = fld time_nxt h x) \<Longrightarrow>
   (\<forall>x\<in>set (as @ [q]). fld time_lst h' x = fld time_lst h x) \<Longrightarrow>
   dll h' p as q = dll h p as q"
  by (induction as arbitrary: p) auto

lemma dll_retarget:
  "dll h p as q \<Longrightarrow>
   (\<forall>x\<in>set (butlast (p # as)). fld time_nxt h' x = fld time_nxt h x) \<Longrightarrow>
   (\<forall>x\<in>set as. fld time_lst h' x = fld time_lst h x) \<Longrightarrow>
   fld time_nxt h' (last (p # as)) = Some (Some q') \<Longrightarrow>
   fld time_lst h' q' = Some (Some (last (p # as))) \<Longrightarrow>
   dll h' p as q'"
  by (induction as arbitrary: p) auto

lemma dll_last: "dll h p as q \<Longrightarrow> fld time_lst h q = Some (Some (last (p # as)))"
  by (induction as arbitrary: p) auto

lemma dll_first: "dll h p as q \<Longrightarrow> fld time_nxt h p = Some (Some (hd (as @ [q])))"
  by (cases as) auto

lemma dll_tpath: "dll h p as q \<Longrightarrow> \<exists>it. fld time_nxt h p = Some it \<and> tpath h it as q"
  by (induction as arbitrary: p) fastforce+

lemma dll_alloc: "dll h p as q \<Longrightarrow> x \<in> set (p # as @ [q]) \<Longrightarrow> nodes h x \<noteq> None"
  by (induction as arbitrary: p) (auto simp: fld_def)

lemma tpath_cong:
  "(\<forall>x\<in>set as. fld time_nxt h' x = fld time_nxt h x) \<Longrightarrow> tpath h' it as q = tpath h it as q"
  by (induction as arbitrary: it) (auto split: option.splits)

lemma chain_cong:
  "(\<forall>x\<in>set as. fld nxt h' x = fld nxt h x) \<Longrightarrow> chain h' p as = chain h p as"
  by (induction as arbitrary: p) (auto split: option.splits)

lemma chain_unique: "chain h p as \<Longrightarrow> chain h p bs \<Longrightarrow> as = bs"
  by (induction as arbitrary: p bs) (case_tac bs; auto split: option.splits)+

lemma entry_Some: "entry h a = Some kv \<longleftrightarrow> (\<exists>n. nodes h a = Some n \<and> val n = Some kv)"
  by (auto simp: entry_def bind_eq_Some_conv)

lemma Find_loop_chain:
  "chain h p cs \<Longrightarrow> \<forall>a\<in>set cs. entry h a \<noteq> None \<Longrightarrow>
   Find_loop x p m h = Some (case List.find (\<lambda>a. key h a = x) cs of None \<Rightarrow> tl_node m | Some a \<Rightarrow> a)"
proof (induction cs arbitrary: p)
  case Nil
  then show ?case by (simp add: Find_loop.simps)
next
  case (Cons a cs)
  from Cons.prems obtain n kv where p: "p = Some a" and n: "nodes h a = Some n"
    and v: "val n = Some kv" and ch: "chain h (nxt n) cs"
    by (auto simp: fld_def entry_Some split: option.splits)
  have k: "key h a = fst kv" using n v by (simp add: key_def entry_def)
  have unf: "Find_loop x p m h = (if x = fst kv then Some a else Find_loop x (nxt n) m h)"
    by (subst Find_loop.simps) (simp add: p n v)
  have "Find_loop x (nxt n) m h =
      Some (case List.find (\<lambda>a. key h a = x) cs of None \<Rightarrow> tl_node m | Some a \<Rightarrow> a)"
    using Cons.IH [OF ch] Cons.prems(2) by simp
  then show ?case unfolding unf using k by simp
qed

lemma find_unique:
  "a \<in> set cs \<Longrightarrow> P a \<Longrightarrow> (\<forall>b\<in>set cs. b \<noteq> a \<longrightarrow> \<not> P b) \<Longrightarrow> List.find P cs = Some a"
  by (induction cs) auto

lemma Find_present:
  assumes "invl hash m h as" "a \<in> set as" "key h a = x"
  shows "Find hash x m h = Some a"
proof -
  let ?i = "hash x mod len m"
  from assms(1) have len: "0 < len m" "length (buc m) = len m" by (auto simp: invl_def bk_def)
  then have i: "?i < len m" by simp
  with assms(1) obtain cs where cs: "chain h (buc m ! ?i) cs"
    "set cs = {a \<in> set as. hash (key h a) mod len m = ?i}"
    unfolding invl_def bk_def by blast
  have ent: "\<forall>a\<in>set cs. entry h a \<noteq> None" using cs(2) assms(1) by (auto simp: invl_def olist_def)
  have "distinct (map (key h) as)" using assms(1) by (simp add: invl_def olist_def)
  then have inj: "inj_on (key h) (set as)" by (simp add: distinct_map)
  have "a \<in> set cs" using cs(2) assms by simp
  moreover have "\<forall>b\<in>set cs. b \<noteq> a \<longrightarrow> key h b \<noteq> x"
  proof (intro ballI impI)
    fix b assume b: "b \<in> set cs" "b \<noteq> a"
    then have "b \<in> set as" using cs(2) by simp
    then have "key h b \<noteq> key h a" using inj assms(2) b(2) by (meson inj_onD)
    then show "key h b \<noteq> x" using assms(3) by simp
  qed
  ultimately have "List.find (\<lambda>a. key h a = x) cs = Some a"
    using assms(3) by (intro find_unique) auto
  then show ?thesis using Find_loop_chain [OF cs(1) ent, of x m] len i by (simp add: Find_def)
qed

lemma Find_absent:
  assumes "invl hash m h as" "x \<notin> key h ` set as"
  shows "Find hash x m h = Some (tl_node m)"
proof -
  let ?i = "hash x mod len m"
  from assms(1) have len: "0 < len m" "length (buc m) = len m" by (auto simp: invl_def bk_def)
  then have i: "?i < len m" by simp
  with assms(1) obtain cs where cs: "chain h (buc m ! ?i) cs"
    "set cs = {a \<in> set as. hash (key h a) mod len m = ?i}"
    unfolding invl_def bk_def by blast
  have ent: "\<forall>a\<in>set cs. entry h a \<noteq> None" using cs(2) assms(1) by (auto simp: invl_def olist_def)
  have "List.find (\<lambda>a. key h a = x) cs = None"
    using cs(2) assms(2) by (auto simp: find_None_iff)
  then show ?thesis using Find_loop_chain [OF cs(1) ent, of x m] len i by (simp add: Find_def)
qed

lemma wr_Some: "wr a f h = Some h' \<longleftrightarrow> (\<exists>n. nodes h a = Some n \<and> h' = h\<lparr>nodes := (nodes h)(a \<mapsto> f n)\<rparr>)"
  by (auto simp: wr_def split: option.splits)

lemma fld_upd: "fld g (h\<lparr>nodes := (nodes h)(a \<mapsto> n)\<rparr>) x = (if x = a then Some (g n) else fld g h x)"
  by (simp add: fld_def)

lemma fld_del: "fld g (h\<lparr>nodes := (nodes h)(a := None)\<rparr>) x = (if x = a then None else fld g h x)"
  by (simp add: fld_def)

lemma entry_upd: "entry (h\<lparr>nodes := (nodes h)(a \<mapsto> n)\<rparr>) x = (if x = a then val n else entry h x)"
  by (simp add: entry_def)

lemma entry_fld: "entry h a = (case fld val h a of None \<Rightarrow> None | Some v \<Rightarrow> v)"
  by (simp add: entry_def fld_def split: option.splits)

lemma entry_eqI: "nodes h' a = nodes h a \<Longrightarrow> entry h' a = entry h a"
  by (simp add: entry_def)

lemma key_eqI: "entry h' a = entry h a \<Longrightarrow> key h' a = key h a"
  by (simp add: key_def)

lemma fld_eqI: "nodes h' a = nodes h a \<Longrightarrow> fld g h' a = fld g h a"
  by (simp add: fld_def)

lemma filter_snoc_set:
  "{x \<in> set (ds @ [a]). P x} = (if P a then insert a {x \<in> set ds. P x} else {x \<in> set ds. P x})"
  by auto

lemma bk_push:
  assumes bk: "bk hash m h ds" and a: "a \<notin> set ds"
    and same: "\<forall>x\<in>set ds. fld nxt h' x = fld nxt h x \<and> entry h' x = entry h x"
    and n': "nodes h' a = Some n'" "val n' = Some kv" "nxt n' = buc m ! (hash (fst kv) mod len m)"
  shows "bk hash (m\<lparr>buc := (buc m)[hash (fst kv) mod len m := Some a]\<rparr>) h' (ds @ [a])"
proof -
  let ?ix = "hash (fst kv) mod len m"
  let ?m = "m\<lparr>buc := (buc m)[?ix := Some a]\<rparr>"
  from bk have len: "0 < len m" "length (buc m) = len m" by (auto simp: bk_def)
  have ka: "key h' a = fst kv" using n' by (simp add: key_def entry_def)
  have ko: "\<And>x. x \<in> set ds \<Longrightarrow> key h' x = key h x"
    using same by (intro key_eqI) auto
  have "\<exists>cs. chain h' (buc ?m ! i) cs \<and> distinct cs \<and>
          set cs = {x \<in> set (ds @ [a]). hash (key h' x) mod len ?m = i}" if i: "i < len m" for i
  proof -
    from bk i obtain cs where cs: "chain h (buc m ! i) cs" "distinct cs"
      "set cs = {x \<in> set ds. hash (key h x) mod len m = i}"
      unfolding bk_def by blast
    have anot: "a \<notin> set cs" using cs(3) a by simp
    have "\<forall>x\<in>set cs. fld nxt h' x = fld nxt h x"
      using same cs(3) by simp
    then have ch': "chain h' (buc m ! i) cs" using cs(1) chain_cong by blast
    have seteq: "{x \<in> set ds. hash (key h' x) mod len m = i} = set cs"
      using cs(3) ko by auto
    show ?thesis
    proof (cases "i = ?ix")
      case True
      have "chain h' (buc ?m ! i) (a # cs)"
        using True len i ch' n' by (simp add: fld_def)
      moreover have "distinct (a # cs)" using anot cs(2) by simp
      moreover have "set (a # cs) = {x \<in> set (ds @ [a]). hash (key h' x) mod len ?m = i}"
      proof -
        have "(hash (key h' a) mod len ?m = i) = True" using True ka by simp
        then show ?thesis unfolding filter_snoc_set by (simp add: seteq)
      qed
      ultimately show ?thesis by blast
    next
      case False
      have "chain h' (buc ?m ! i) cs" using False len i ch' by simp
      moreover have "set cs = {x \<in> set (ds @ [a]). hash (key h' x) mod len ?m = i}"
      proof -
        have "(hash (key h' a) mod len ?m = i) = False" using False ka by simp
        then show ?thesis unfolding filter_snoc_set by (simp add: seteq)
      qed
      ultimately show ?thesis using cs(2) by blast
    qed
  qed
  then show ?thesis using len by (simp add: bk_def)
qed

lemma nxt_only_refl: "nxt_only S h h"
  by (simp add: nxt_only_def)

lemma nxt_only_trans: "nxt_only S h h1 \<Longrightarrow> nxt_only T h1 h2 \<Longrightarrow> nxt_only (S \<union> T) h h2"
  by (simp add: nxt_only_def)

lemma nxt_only_mono: "nxt_only S h h' \<Longrightarrow> S \<subseteq> T \<Longrightarrow> nxt_only T h h'"
  by (auto simp: nxt_only_def)

lemma nxt_only_entry: "nxt_only S h h' \<Longrightarrow> entry h' x = entry h x"
  by (simp add: nxt_only_def entry_fld)

lemma nxt_only_key: "nxt_only S h h' \<Longrightarrow> key h' = key h"
  by (auto simp: key_def nxt_only_entry)

lemma nxt_only_dll: "nxt_only S h h' \<Longrightarrow> dll h' p as q = dll h p as q"
  by (rule dll_cong) (simp_all add: nxt_only_def)

lemma nxt_only_tpath: "nxt_only S h h' \<Longrightarrow> tpath h' it as q = tpath h it as q"
  by (rule tpath_cong) (simp add: nxt_only_def)

lemma nxt_only_olist: "nxt_only S h h' \<Longrightarrow> olist m h' as = olist m h as"
  by (simp add: olist_def nxt_only_dll nxt_only_entry nxt_only_key) (simp add: nxt_only_def)

lemma nxt_only_wr:
  "nodes h a = Some n \<Longrightarrow> nxt_only {a} h (h\<lparr>nodes := (nodes h)(a \<mapsto> n\<lparr>nxt := x\<rparr>)\<rparr>)"
  by (simp add: nxt_only_def fld_def)

lemma ChangeSpace_loop_ok:
  assumes "tpath h it bs (tl_node m)" "distinct (ds @ bs)" "tl_node m \<notin> set bs"
    "\<forall>a\<in>set bs. entry h a \<noteq> None" "bk hash m h ds"
  shows "\<exists>bu h'. ChangeSpace_loop hash it m h = Some (m\<lparr>buc := bu\<rparr>, h') \<and>
           bk hash (m\<lparr>buc := bu\<rparr>) h' (ds @ bs) \<and> nxt_only (set bs) h h'"
  using assms
proof (induction bs arbitrary: it m h ds)
  case Nil
  then have "ChangeSpace_loop hash it m h = Some (m\<lparr>buc := buc m\<rparr>, h)"
    by (subst ChangeSpace_loop.simps) simp
  moreover have "bk hash (m\<lparr>buc := buc m\<rparr>) h (ds @ [])" using Nil.prems(5) by simp
  ultimately show ?case using nxt_only_refl by blast
next
  case (Cons a bs)
  from Cons.prems(1) obtain x where it: "it = Some a" and x: "fld time_nxt h a = Some x"
    and tp: "tpath h x bs (tl_node m)"
    by (auto split: option.splits)
  from Cons.prems(4) obtain n kv where n: "nodes h a = Some n" and v: "val n = Some kv"
    by (auto simp: entry_Some)
  have tn: "time_nxt n = x" using x n by (simp add: fld_def)
  have atl: "a \<noteq> tl_node m" using Cons.prems(3) by auto
  from Cons.prems(5) have len: "0 < len m" "length (buc m) = len m" by (auto simp: bk_def)
  let ?ix = "hash (fst kv) mod len m"
  let ?h1 = "h\<lparr>nodes := (nodes h)(a \<mapsto> n\<lparr>nxt := buc m ! ?ix\<rparr>)\<rparr>"
  let ?m1 = "m\<lparr>buc := (buc m)[?ix := Some a]\<rparr>"
  have ix: "?ix < len m" using len by simp
  have ix': "len m \<noteq> 0" "\<not> len m \<le> ?ix" using len ix by (simp_all add: not_le)
  have unf: "ChangeSpace_loop hash it m h = ChangeSpace_loop hash x ?m1 ?h1"
    by (subst ChangeSpace_loop.simps) (simp add: it atl n v len ix' wr_def tn Let_def)
  have no: "nxt_only {a} h ?h1" using n by (rule nxt_only_wr)
  have a_ds: "a \<notin> set ds" using Cons.prems(2) by simp
  have bk1: "bk hash ?m1 ?h1 (ds @ [a])"
    using a_ds
    by (intro bk_push [OF Cons.prems(5) a_ds, where n' = "n\<lparr>nxt := buc m ! ?ix\<rparr>"])
       (auto simp: v fld_upd entry_upd)
  have tp1: "tpath ?h1 x bs (tl_node ?m1)" using tp nxt_only_tpath [OF no] by simp
  have d1: "distinct ((ds @ [a]) @ bs)" using Cons.prems(2) by simp
  have t1: "tl_node ?m1 \<notin> set bs" using Cons.prems(3) by simp
  have e1: "\<forall>a\<in>set bs. entry ?h1 a \<noteq> None"
    using Cons.prems(4) nxt_only_entry [OF no] by simp
  from Cons.IH [OF tp1 d1 t1 e1 bk1] obtain bu h' where
    r: "ChangeSpace_loop hash x ?m1 ?h1 = Some (?m1\<lparr>buc := bu\<rparr>, h')"
    "bk hash (?m1\<lparr>buc := bu\<rparr>) h' ((ds @ [a]) @ bs)" "nxt_only (set bs) ?h1 h'"
    by blast
  have "nxt_only (set (a # bs)) h h'"
    using nxt_only_trans [OF no r(3)] by simp
  then show ?case using unf r(1,2) by auto
qed

lemma bk_cong:
  assumes "\<forall>x\<in>set as. fld nxt h' x = fld nxt h x \<and> entry h' x = entry h x"
    "len m' = len m" "buc m' = buc m"
  shows "bk hash m' h' as = bk hash m h as"
proof -
  have k: "\<And>x. x \<in> set as \<Longrightarrow> key h' x = key h x"
    using assms(1) by (intro key_eqI) auto
  have s: "{a \<in> set as. hash (key h' a) mod len m = i} = {a \<in> set as. hash (key h a) mod len m = i}" for i
    using k by auto
  have c: "chain h' p cs = chain h p cs" if "set cs \<subseteq> set as" for p cs
    using that assms(1) by (intro chain_cong) auto
  have "(chain h' p cs \<and> distinct cs \<and> set cs = {a \<in> set as. hash (key h' a) mod len m = i}) =
        (chain h p cs \<and> distinct cs \<and> set cs = {a \<in> set as. hash (key h a) mod len m = i})" for p cs i
    unfolding s using c [of cs p] by auto
  then show ?thesis by (simp add: bk_def assms(2,3))
qed

lemma olist_cong_m:
  "hd_node m' = hd_node m \<Longrightarrow> tl_node m' = tl_node m \<Longrightarrow> olist m' h as = olist m h as"
  by (simp add: olist_def)

lemma or_push_bit_1: "or (push_bit (nat 1) n) (1::nat) = 2 * n + 1"
  unfolding or_one_eq by (simp add: push_bit_eq_mult)

lemma drop_bit_1: "drop_bit (nat (- (- 1))) (n::nat) = n div 2"
  by (simp add: drop_bit_eq_div)

lemma caps_grow: "caps n \<Longrightarrow> caps (2 * n + 1)"
proof -
  assume "caps n"
  then obtain j where "Suc n = 14 * 2 ^ j" by (auto simp: caps_def)
  then have "Suc (2 * n + 1) = 14 * 2 ^ Suc j" by simp
  then show ?thesis unfolding caps_def by blast
qed

lemma caps_shrink: "caps n \<Longrightarrow> 13 < n \<Longrightarrow> caps (n div 2)"
proof -
  assume c: "caps n" and n: "13 < n"
  then obtain j where j: "Suc n = 14 * 2 ^ j" by (auto simp: caps_def)
  have "j \<noteq> 0" using j n by (cases j) auto
  then obtain i where i: "j = Suc i" by (cases j) auto
  have "n = 2 * (14 * 2 ^ i) - 1" using j i by simp
  then have "n div 2 = 14 * 2 ^ i - 1" by simp
  then have "Suc (n div 2) = 14 * 2 ^ i" by simp
  then show ?thesis unfolding caps_def by blast
qed

lemma caps_ge: "caps n \<Longrightarrow> 13 \<le> n"
proof -
  assume "caps n"
  then obtain j where j: "Suc n = 14 * 2 ^ j" by (auto simp: caps_def)
  have "(1::nat) \<le> 2 ^ j" by simp
  then have "14 * 1 \<le> 14 * (2::nat) ^ j" by (rule mult_le_mono2)
  then show ?thesis using j by linarith
qed

lemma caps_LEN: "caps LEN"
  unfolding caps_def LEN_def by (rule exI [of _ 0]) simp

lemma ChangeSpace_ok:
  assumes ol: "olist m h as"
    and l1: "len1 = (if d > 0 then or (push_bit (nat d) (len m)) 1 else drop_bit (nat (- d)) (len m))"
    and pos: "0 < len1"
  shows "\<exists>bu h'. ChangeSpace hash d m h = Some (m\<lparr>len := len1, buc := bu\<rparr>, h') \<and>
           bk hash (m\<lparr>len := len1, buc := bu\<rparr>) h' as \<and> nxt_only (set as) h h'"
proof -
  let ?m1 = "m\<lparr>len := len1, buc := replicate len1 None\<rparr>"
  from ol have dl: "dll h (hd_node m) as (tl_node m)" by (simp add: olist_def)
  then obtain it where it: "fld time_nxt h (hd_node m) = Some it" "tpath h it as (tl_node m)"
    using dll_tpath by blast
  then obtain nh where nh: "nodes h (hd_node m) = Some nh" "time_nxt nh = it"
    by (auto simp: fld_def)
  have unf: "ChangeSpace hash d m h = ChangeSpace_loop hash it ?m1 h"
    by (simp add: ChangeSpace_def Let_def l1 nh)
  have b0: "bk hash ?m1 h []" using pos by (simp add: bk_def)
  have "\<exists>bu h'. ChangeSpace_loop hash it ?m1 h = Some (?m1\<lparr>buc := bu\<rparr>, h') \<and>
           bk hash (?m1\<lparr>buc := bu\<rparr>) h' ([] @ as) \<and> nxt_only (set as) h h'"
    using it(2) ol b0 by (intro ChangeSpace_loop_ok) (auto simp: olist_def)
  then show ?thesis unfolding unf by simp
qed

lemma Add_step1:
  assumes inv: "invl hash m h as"
  shows "\<exists>m1 h1. (if load m > len m then ChangeSpace hash 1 (m\<lparr>load := load m + 1\<rparr>) h
                    else Some (m\<lparr>load := load m + 1\<rparr>, h)) = Some (m1, h1) \<and>
           olist m1 h1 as \<and> bk hash m1 h1 as \<and> nxt_only (set as) h h1 \<and>
           this m1 = this m \<and> hd_node m1 = hd_node m \<and> tl_node m1 = tl_node m \<and>
           load m1 = Suc (load m) \<and> caps (len m1) \<and>
           len m1 = (if load m > len m then 2 * len m + 1 else len m)"
proof (cases "load m > len m")
  case True
  let ?m0 = "m\<lparr>load := load m + 1\<rparr>"
  have "olist ?m0 h as = olist m h as" by (rule olist_cong_m) simp_all
  then have ol: "olist ?m0 h as" using inv by (simp add: invl_def)
  have l1: "2 * len m + 1 = (if (1::int) > 0 then or (push_bit (nat 1) (len ?m0)) 1
                             else drop_bit (nat (- 1)) (len ?m0))"
    using or_push_bit_1 by simp
  from ChangeSpace_ok [OF ol l1, of hash] obtain bu h1 where
    r: "ChangeSpace hash 1 ?m0 h = Some (?m0\<lparr>len := 2 * len m + 1, buc := bu\<rparr>, h1)"
       "bk hash (?m0\<lparr>len := 2 * len m + 1, buc := bu\<rparr>) h1 as" "nxt_only (set as) h h1"
    by auto
  let ?m1 = "?m0\<lparr>len := 2 * len m + 1, buc := bu\<rparr>"
  have "olist ?m1 h as = olist ?m0 h as" by (rule olist_cong_m) simp_all
  then have "olist ?m1 h1 as"
    using ol nxt_only_olist [OF r(3)] by simp
  moreover have "caps (len ?m1)" using inv caps_grow by (simp add: invl_def)
  ultimately show ?thesis using True r by simp
next
  case False
  let ?m0 = "m\<lparr>load := load m + 1\<rparr>"
  have "olist ?m0 h as = olist m h as" by (rule olist_cong_m) simp_all
  then have "olist ?m0 h as" using inv by (simp add: invl_def)
  moreover have "bk hash ?m0 h as" using inv by (simp add: invl_def bk_def)
  moreover have "caps (len ?m0)" using inv by (simp add: invl_def)
  ultimately show ?thesis using False nxt_only_refl by simp
qed

lemma last_notin_butlast: "distinct xs \<Longrightarrow> xs \<noteq> [] \<Longrightarrow> last xs \<notin> set (butlast xs)"
  by (metis append_butlast_last_id distinct_butlast not_distinct_conv_prefix)

lemma Add_ok:
  assumes inv: "invl hash m h as" and fresh: "fst kv \<notin> key h ` set as"
  shows "\<exists>m' h'. Add hash kv m h = Some (brk h, m', h') \<and> invl hash m' h' (as @ [brk h]) \<and>
           entry h' (brk h) = Some kv \<and> (\<forall>a\<in>set as. entry h' a = entry h a) \<and>
           brk h' = Suc (brk h) \<and>
           (\<forall>x. x \<notin> fp m as \<longrightarrow> x \<noteq> brk h \<longrightarrow> nodes h' x = nodes h x) \<and>
           this m' = this m \<and> hd_node m' = hd_node m \<and> tl_node m' = tl_node m \<and>
           load m' = Suc (load m) \<and>
           len m' = (if load m > len m then 2 * len m + 1 else len m)"
proof -
  from Add_step1 [OF inv] obtain m1 h1 where
    s1: "(if load m > len m then ChangeSpace hash 1 (m\<lparr>load := load m + 1\<rparr>) h
          else Some (m\<lparr>load := load m + 1\<rparr>, h)) = Some (m1, h1)"
    and ol1: "olist m1 h1 as" and bk1: "bk hash m1 h1 as" and no: "nxt_only (set as) h h1"
    and m1: "this m1 = this m" "hd_node m1 = hd_node m" "tl_node m1 = tl_node m"
      "load m1 = Suc (load m)" "len m1 = (if load m > len m then 2 * len m + 1 else len m)"
    and cp: "caps (len m1)"
    by blast
  define p where "p = brk h"
  define hd0 where "hd0 = hd_node m"
  define tl0 where "tl0 = tl_node m"
  define lst where "lst = last (hd0 # as)"
  define ix where "ix = hash (fst kv) mod len m1"
  have brk1: "brk h1 = brk h" using no by (simp add: nxt_only_def)
  from ol1 have dl: "dll h1 hd0 as tl0" and dist: "distinct (hd0 # as @ [tl0])"
    and ents: "\<forall>a\<in>set as. entry h1 a \<noteq> None" and dk: "distinct (map (key h1) as)"
    and lt: "\<forall>a\<in>set (hd0 # as @ [tl0]). a < p"
    by (simp_all add: olist_def m1 hd0_def tl0_def p_def brk1)
  have len: "0 < len m1" "length (buc m1) = len m1" using bk1 by (auto simp: bk_def)
  have ixl: "ix < len m1" using len by (simp add: ix_def)
  have lst_in: "lst \<in> set (hd0 # as)" unfolding lst_def by (rule last_in_set) simp
  have p_new: "p \<noteq> tl0" "p \<noteq> lst" "p \<noteq> hd0" "p \<notin> set as"
    using lt lst_in by auto
  have lst_tl: "lst \<noteq> tl0" using dist lst_in by auto
  have np: "\<And>x. x \<in> set as \<Longrightarrow> x \<noteq> p" using p_new by auto
  from dll_last [OF dl] obtain nt where nt: "nodes h1 tl0 = Some nt" "time_lst nt = Some lst"
    by (auto simp: fld_def lst_def)
  from dll_alloc [OF dl, of lst] lst_in obtain nl where nl: "nodes h1 lst = Some nl"
    by auto
  define N where "N = Node4 kv (Some lst) (Some tl0) (buc m1 ! ix)"
  define h4 where "h4 = h1\<lparr>nodes := (nodes h1)(p \<mapsto> N, lst \<mapsto> nl\<lparr>time_nxt := Some p\<rparr>,
                                  tl0 \<mapsto> nt\<lparr>time_lst := Some p\<rparr>), brk := Suc (brk h1)\<rparr>"
  define m4 where "m4 = m1\<lparr>buc := (buc m1)[ix := Some p]\<rparr>"
  have ix': "len m1 \<noteq> 0" "\<not> len m1 \<le> ix"
    using len ixl by (simp_all add: not_le)
  have unf: "Add hash kv m h = Some (p, m4, h4)"
    unfolding Add_def s1
    using p_new lst_tl
    by (simp add: ix' len Let_def new_Node_def wr_def nt nl brk1 m1(3) p_def [symmetric]
        tl0_def [symmetric] ix_def [symmetric] N_def [symmetric] h4_def m4_def)
  have nodes4: "nodes h4 x = (if x = tl0 then Some (nt\<lparr>time_lst := Some p\<rparr>)
       else if x = lst then Some (nl\<lparr>time_nxt := Some p\<rparr>)
       else if x = p then Some N else nodes h1 x)" for x
    by (simp add: h4_def)
  have brk4: "brk h4 = Suc p" by (simp add: h4_def brk1 p_def)
  have tnx4: "fld time_nxt h4 x = fld time_nxt h1 x" if "x \<noteq> p" "x \<noteq> lst" for x
    using that nt by (simp add: fld_def nodes4)
  have tls4: "fld time_lst h4 x = fld time_lst h1 x" if "x \<noteq> p" "x \<noteq> tl0" for x
    using that nl by (simp add: fld_def nodes4)
  have nx4: "fld nxt h4 x = fld nxt h1 x" if "x \<noteq> p" for x
    using that nt nl by (simp add: fld_def nodes4)
  have en4: "entry h4 x = entry h1 x" if "x \<noteq> p" for x
    using that nt nl by (simp add: entry_def nodes4)
  have enp: "entry h4 p = Some kv" using p_new by (simp add: entry_def nodes4 N_def Node4_def)
  have dhd: "distinct (hd0 # as)" using dist by simp
  have d1: "dll h4 hd0 as p"
  proof (rule dll_retarget [OF dl])
    show "\<forall>x\<in>set (butlast (hd0 # as)). fld time_nxt h4 x = fld time_nxt h1 x"
    proof
      fix x assume x: "x \<in> set (butlast (hd0 # as))"
      have "lst \<notin> set (butlast (hd0 # as))"
        unfolding lst_def using dhd by (intro last_notin_butlast) simp_all
      then have "x \<noteq> lst" using x by auto
      moreover have "x \<in> set (hd0 # as)" using x by (rule in_set_butlastD)
      then have "x \<noteq> p" using p_new by auto
      ultimately show "fld time_nxt h4 x = fld time_nxt h1 x" using tnx4 by simp
    qed
    show "\<forall>x\<in>set as. fld time_lst h4 x = fld time_lst h1 x"
      using dist by (auto intro!: tls4 np)
    have "fld time_nxt h4 lst = Some (Some p)"
      using lst_tl by (simp add: fld_def nodes4)
    then show "fld time_nxt h4 (last (hd0 # as)) = Some (Some p)"
      by (simp only: lst_def)
    have "fld time_lst h4 p = Some (Some lst)"
      using p_new by (simp add: fld_def nodes4 N_def Node4_def)
    then show "fld time_lst h4 p = Some (Some (last (hd0 # as)))"
      by (simp only: lst_def)
  qed
  have d2: "dll h4 p [] tl0"
    using p_new by (simp add: fld_def nodes4 N_def Node4_def)
  have dl4: "dll h4 hd0 (as @ [p]) tl0"
    using d1 d2 dll_split [of h4 hd0 as p "[]" tl0] by simp
  have keys1: "key h1 = key h" using no by (rule nxt_only_key)
  have kmap: "map (key h4) as = map (key h1) as"
    by (intro map_cong refl key_eqI en4 np)
  have kp: "key h4 p = fst kv" using enp by (simp add: key_def)
  have ol4: "olist m4 h4 (as @ [p])"
    unfolding olist_def
  proof (intro conjI)
    show "dll h4 (hd_node m4) (as @ [p]) (tl_node m4)"
      using dl4 by (simp add: m4_def m1 hd0_def tl0_def)
    show "distinct (hd_node m4 # (as @ [p]) @ [tl_node m4])"
      using dist p_new by (auto simp: m4_def m1 hd0_def tl0_def)
    show "\<forall>a\<in>set (as @ [p]). entry h4 a \<noteq> None"
    proof
      fix a assume "a \<in> set (as @ [p])"
      then consider "a = p" | "a \<in> set as" "a \<noteq> p" using p_new by auto
      then show "entry h4 a \<noteq> None"
      proof cases
        case 1
        then show ?thesis using enp by simp
      next
        case 2
        then show ?thesis using ents en4 [of a] by simp
      qed
    qed
    show "distinct (map (key h4) (as @ [p]))"
      using dk fresh by (simp add: kmap kp keys1)
    show "\<forall>a\<in>set (hd_node m4 # (as @ [p]) @ [tl_node m4]). a < brk h4"
      using lt by (auto simp: brk4 m4_def m1 hd0_def tl0_def less_Suc_eq)
  qed
  have "bk hash (m1\<lparr>buc := (buc m1)[hash (fst kv) mod len m1 := Some p]\<rparr>) h4 (as @ [p])"
  proof (rule bk_push [OF bk1, where n' = N])
    show "p \<notin> set as" by (rule p_new)
    show "\<forall>x\<in>set as. fld nxt h4 x = fld nxt h1 x \<and> entry h4 x = entry h1 x"
      by (simp add: np nx4 en4)
    show "nodes h4 p = Some N" using p_new by (simp add: nodes4)
    show "val N = Some kv" by (simp add: N_def Node4_def)
    show "nxt N = buc m1 ! (hash (fst kv) mod len m1)" by (simp add: N_def Node4_def ix_def)
  qed
  then have bk4: "bk hash m4 h4 (as @ [p])" by (simp add: m4_def ix_def)
  have ld: "load m4 = length (as @ [p])" using inv by (simp add: m4_def m1 invl_def)
  have sn: "entry h4 hd0 = None" "entry h4 tl0 = None"
    using inv p_new en4 [of hd0] en4 [of tl0] nxt_only_entry [OF no]
    by (simp_all add: invl_def hd0_def tl0_def)
  have inv4: "invl hash m4 h4 (as @ [p])"
    using ol4 bk4 ld cp sn by (simp add: invl_def m4_def m1 hd0_def tl0_def)
  have ent_old: "\<forall>a\<in>set as. entry h4 a = entry h a"
    by (simp add: np en4 nxt_only_entry [OF no])
  have frame: "\<forall>x. x \<notin> fp m as \<longrightarrow> x \<noteq> p \<longrightarrow> nodes h4 x = nodes h x"
  proof (intro allI impI)
    fix x assume x: "x \<notin> fp m as" "x \<noteq> p"
    then have "x \<noteq> tl0" "x \<noteq> lst" "x \<notin> set as"
      using lst_in by (auto simp: fp_def hd0_def tl0_def)
    then show "nodes h4 x = nodes h x" using x(2) no by (simp add: nodes4 nxt_only_def)
  qed
  show ?thesis
    using unf inv4 enp ent_old brk4 frame m1
    by (simp add: p_def [symmetric] m4_def)
qed

lemma chain_alloc: "chain h p cs \<Longrightarrow> x \<in> set cs \<Longrightarrow> nodes h x \<noteq> None"
  by (induction cs arbitrary: p) (auto simp: fld_def split: option.splits)

lemma chain_mid:
  "chain h p (us @ a # vs) \<Longrightarrow> \<exists>x. fld nxt h a = Some x \<and> chain h x vs"
  by (induction us arbitrary: p) (auto split: option.splits)

lemma chain_head: "chain h p (a # cs) \<Longrightarrow> p = Some a"
  by simp

lemma erase_loop_ok:
  "chain h p (us @ a # vs) \<Longrightarrow> us \<noteq> [] \<Longrightarrow> a \<notin> set us \<Longrightarrow> erase_loop p a h = Some (last us)"
proof (induction us arbitrary: p)
  case Nil
  then show ?case by simp
next
  case (Cons u us)
  from Cons.prems(1) obtain n where p: "p = Some u" and n: "nodes h u = Some n"
    and ch: "chain h (nxt n) (us @ a # vs)"
    by (auto simp: fld_def split: option.splits)
  show ?case
  proof (cases us)
    case Nil
    then have "nxt n = Some a" using ch by simp
    then show ?thesis using p n Nil by (subst erase_loop.simps) simp
  next
    case (Cons u2 us2)
    then have nx: "nxt n = Some u2" using ch by simp
    have "u2 \<noteq> a" using Cons.prems(3) Cons by auto
    then have "erase_loop p a h = erase_loop (nxt n) a h"
      using p n nx by (subst erase_loop.simps) simp
    moreover have "erase_loop (nxt n) a h = Some (last us)"
      using Cons.IH [OF ch] Cons Cons.prems(3) by simp
    ultimately show ?thesis using Cons by simp
  qed
qed

lemma chain_unlink:
  assumes "chain h p (us @ a # vs)" "distinct (us @ a # vs)" "us \<noteq> []"
    "nodes h (last us) = Some n" "nodes h a = Some na"
  shows "chain (h\<lparr>nodes := (nodes h)(last us \<mapsto> n\<lparr>nxt := nxt na\<rparr>)\<rparr>) p (us @ vs)"
  using assms
proof (induction us arbitrary: p)
  case Nil
  then show ?case by simp
next
  case (Cons u us)
  let ?h = "\<lambda>w. h\<lparr>nodes := (nodes h)(w \<mapsto> n\<lparr>nxt := nxt na\<rparr>)\<rparr>"
  from Cons.prems(1) obtain y where p: "p = Some u" and y: "fld nxt h u = Some y"
    and ch: "chain h y (us @ a # vs)"
    by (auto split: option.splits)
  show ?case
  proof (cases us)
    case Nil
    have n: "nodes h u = Some n" using Cons.prems(4) Nil by simp
    from ch Nil obtain x where x: "y = Some a" "fld nxt h a = Some x" "chain h x vs"
      by (auto split: option.splits)
    have xn: "nxt na = x" using x(2) Cons.prems(5) by (simp add: fld_def)
    have "u \<notin> set vs" using Cons.prems(2) by simp
    then have "chain (?h u) x vs = chain h x vs"
      by (intro chain_cong) (auto simp: fld_def)
    then have c: "chain (?h u) x vs" using x(3) by simp
    have f1: "fld nxt (?h u) u = Some x" by (simp add: fld_def xn)
    have g: "chain (?h u) (Some u) ([u] @ vs)" using f1 c by simp
    have lu: "last [u] = u" by simp
    show ?thesis unfolding Nil lu p by (rule g)
  next
    case (Cons u2 us2)
    then have ne: "us \<noteq> []" by simp
    have lu: "last (u # us) = last us" using ne by simp
    have "last us \<in> set us" using ne by (rule last_in_set)
    then have "u \<noteq> last us" using Cons.prems(2) by auto
    then have f: "fld nxt (?h (last us)) u = Some y" using y by (simp add: fld_def)
    have d: "distinct (us @ a # vs)" using Cons.prems(2) by simp
    have nl: "nodes h (last us) = Some n" using Cons.prems(4) unfolding lu .
    have "chain (?h (last us)) y (us @ vs)"
      by (rule Cons.IH [OF ch d ne nl Cons.prems(5)])
    then have "chain (?h (last us)) (Some u) ((u # us) @ vs)" using f by simp
    then show ?thesis unfolding lu p .
  qed
qed

lemma dll_remove:
  assumes dl: "dll h p (xs @ a # ys) q" and dist: "distinct (p # xs @ a # ys @ [q])"
    and l: "l = last (p # xs)" and x: "x = hd (ys @ [q])"
    and tn: "\<forall>z. z \<noteq> l \<longrightarrow> z \<noteq> a \<longrightarrow> fld time_nxt h' z = fld time_nxt h z"
    and tl: "\<forall>z. z \<noteq> x \<longrightarrow> z \<noteq> a \<longrightarrow> fld time_lst h' z = fld time_lst h z"
    and nl: "fld time_nxt h' l = Some (Some x)" and nx: "fld time_lst h' x = Some (Some l)"
  shows "dll h' p (xs @ ys) q"
proof -
  from dl have d1: "dll h p xs a" and d2: "dll h a ys q" by (simp_all add: dll_split)
  have lin: "l \<in> set (p # xs)" unfolding l by (rule last_in_set) simp
  have l_notin: "l \<notin> set (butlast (p # xs))"
    unfolding l using dist by (intro last_notin_butlast) simp_all
  have r: "dll h' p xs x"
  proof (rule dll_retarget [OF d1])
    show "\<forall>z\<in>set (butlast (p # xs)). fld time_nxt h' z = fld time_nxt h z"
    proof
      fix z assume z: "z \<in> set (butlast (p # xs))"
      then have "z \<in> set (p # xs)" by (rule in_set_butlastD)
      then have "z \<noteq> a" using dist by auto
      moreover have "z \<noteq> l" using z l_notin by auto
      ultimately show "fld time_nxt h' z = fld time_nxt h z" using tn by simp
    qed
    show "\<forall>z\<in>set xs. fld time_lst h' z = fld time_lst h z"
    proof
      fix z assume z: "z \<in> set xs"
      have "x \<in> set (ys @ [q])" unfolding x by (rule hd_in_set) simp
      then have "z \<noteq> x" using z dist by auto
      moreover have "z \<noteq> a" using z dist by auto
      ultimately show "fld time_lst h' z = fld time_lst h z" using tl by simp
    qed
    show "fld time_nxt h' (last (p # xs)) = Some (Some x)" using nl l by simp
    show "fld time_lst h' x = Some (Some (last (p # xs)))" using nx l by simp
  qed
  show ?thesis
  proof (cases ys)
    case Nil
    then show ?thesis using r x by simp
  next
    case (Cons y ys')
    have xy: "x = y" using x Cons by simp
    from d2 Cons have d3: "dll h y ys' q" by simp
    have "dll h' y ys' q = dll h y ys' q"
    proof (rule dll_cong)
      show "\<forall>z\<in>set (y # ys'). fld time_nxt h' z = fld time_nxt h z"
      proof
        fix z assume z: "z \<in> set (y # ys')"
        then have "z \<noteq> a" using dist Cons by auto
        moreover have "z \<noteq> l" using z lin dist Cons by auto
        ultimately show "fld time_nxt h' z = fld time_nxt h z" using tn by simp
      qed
      show "\<forall>z\<in>set (ys' @ [q]). fld time_lst h' z = fld time_lst h z"
      proof
        fix z assume z: "z \<in> set (ys' @ [q])"
        then have "z \<noteq> a" using dist Cons by auto
        moreover have "z \<noteq> x" using z xy dist Cons by auto
        ultimately show "fld time_lst h' z = fld time_lst h z" using tl by simp
      qed
    qed
    then have "dll h' y ys' q" using d3 by simp
    then show ?thesis using r xy Cons by (simp add: dll_split)
  qed
qed

lemma push_bit_2: "push_bit 2 (n::nat) = 4 * n"
  by (simp add: push_bit_eq_mult)

lemma Del_core:
  assumes ol: "olist m h (xs @ a # ys)" and ld: "0 < load m"
  shows "\<exists>h3. Del hash a m h =
           (if len m > LEN \<and> 4 * (load m - 1) < len m
            then ChangeSpace hash (- 1) (m\<lparr>load := load m - 1\<rparr>) h3
            else Some (m\<lparr>load := load m - 1\<rparr>, h3)) \<and>
         olist (m\<lparr>load := load m - 1\<rparr>) h3 (xs @ ys) \<and> brk h3 = brk h \<and> nodes h3 a = None \<and>
         (\<forall>z. z \<notin> fp m (xs @ a # ys) \<longrightarrow> nodes h3 z = nodes h z) \<and>
         (\<forall>z. z \<noteq> a \<longrightarrow> fld nxt h3 z = fld nxt h z \<and> entry h3 z = entry h z)"
proof -
  define hd0 where "hd0 = hd_node m"
  define tl0 where "tl0 = tl_node m"
  define l where "l = last (hd0 # xs)"
  define x where "x = hd (ys @ [tl0])"
  from ol have dl: "dll h hd0 (xs @ a # ys) tl0" and dist: "distinct (hd0 # xs @ a # ys @ [tl0])"
    and ents: "\<forall>z\<in>set (xs @ a # ys). entry h z \<noteq> None"
    and dk: "distinct (map (key h) (xs @ a # ys))"
    and lt: "\<forall>z\<in>set (hd0 # (xs @ a # ys) @ [tl0]). z < brk h"
    by (simp_all add: olist_def hd0_def tl0_def)
  from dl have d1: "dll h hd0 xs a" and d2: "dll h a ys tl0" by (simp_all add: dll_split)
  have lin: "l \<in> set (hd0 # xs)" unfolding l_def by (rule last_in_set) simp
  have xin: "x \<in> set (ys @ [tl0])" unfolding x_def by (rule hd_in_set) simp
  have ne: "l \<noteq> a" "x \<noteq> a" "l \<noteq> x" using lin xin dist by auto
  from dll_last [OF d1] have al: "fld time_lst h a = Some (Some l)" by (simp add: l_def)
  from dll_first [OF d2] have ax: "fld time_nxt h a = Some (Some x)" by (simp add: x_def)
  from al ax obtain np where np: "nodes h a = Some np" "time_lst np = Some l" "time_nxt np = Some x"
    by (auto simp: fld_def)
  from dll_alloc [OF d1, of l] lin obtain nl where nl: "nodes h l = Some nl" by auto
  from dll_alloc [OF d2, of x] xin obtain nx where nx: "nodes h x = Some nx" by auto
  define h3 where "h3 = h\<lparr>nodes := (nodes h)(l \<mapsto> nl\<lparr>time_nxt := Some x\<rparr>,
                               x \<mapsto> nx\<lparr>time_lst := Some l\<rparr>, a := None)\<rparr>"
  have unf: "Del hash a m h =
           (if len m > LEN \<and> 4 * (load m - 1) < len m
            then ChangeSpace hash (- 1) (m\<lparr>load := load m - 1\<rparr>) h3
            else Some (m\<lparr>load := load m - 1\<rparr>, h3))"
    unfolding Del_def using ld ne
    by (simp add: np nl nx wr_def delete_Node_def Let_def push_bit_2 h3_def)
  have nodes3: "nodes h3 z = (if z = a then None else if z = x then Some (nx\<lparr>time_lst := Some l\<rparr>)
       else if z = l then Some (nl\<lparr>time_nxt := Some x\<rparr>) else nodes h z)" for z
    by (simp add: h3_def)
  have tn: "\<forall>z. z \<noteq> l \<longrightarrow> z \<noteq> a \<longrightarrow> fld time_nxt h3 z = fld time_nxt h z"
    using nx by (simp add: fld_def nodes3)
  have tls: "\<forall>z. z \<noteq> x \<longrightarrow> z \<noteq> a \<longrightarrow> fld time_lst h3 z = fld time_lst h z"
    using nl by (simp add: fld_def nodes3)
  have nl3: "fld time_nxt h3 l = Some (Some x)" using ne by (simp add: fld_def nodes3)
  have nx3: "fld time_lst h3 x = Some (Some l)" using ne by (simp add: fld_def nodes3)
  have dl3: "dll h3 hd0 (xs @ ys) tl0"
    using dl dist l_def x_def tn tls nl3 nx3 by (rule dll_remove)
  have rest: "\<forall>z. z \<noteq> a \<longrightarrow> fld nxt h3 z = fld nxt h z \<and> entry h3 z = entry h z"
    using nl nx by (simp add: fld_def entry_def nodes3)
  have na: "\<And>z. z \<in> set (xs @ ys) \<Longrightarrow> z \<noteq> a" using dist by auto
  have kmap: "map (key h3) (xs @ ys) = map (key h) (xs @ ys)"
    using rest by (intro map_cong refl key_eqI) (simp add: na)
  have ol3: "olist (m\<lparr>load := load m - 1\<rparr>) h3 (xs @ ys)"
    unfolding olist_def
  proof (intro conjI)
    show "dll h3 (hd_node (m\<lparr>load := load m - 1\<rparr>)) (xs @ ys) (tl_node (m\<lparr>load := load m - 1\<rparr>))"
      using dl3 by (simp add: hd0_def tl0_def)
    show "distinct (hd_node (m\<lparr>load := load m - 1\<rparr>) # (xs @ ys) @ [tl_node (m\<lparr>load := load m - 1\<rparr>)])"
      using dist by (simp add: hd0_def tl0_def)
    show "\<forall>z\<in>set (xs @ ys). entry h3 z \<noteq> None"
    proof
      fix z assume z: "z \<in> set (xs @ ys)"
      then have "entry h3 z = entry h z" using rest na by simp
      moreover have "entry h z \<noteq> None" using ents z by simp
      ultimately show "entry h3 z \<noteq> None" by simp
    qed
    have "distinct (map (key h) (xs @ ys))" using dk by auto
    then show "distinct (map (key h3) (xs @ ys))" by (simp only: kmap)
    show "\<forall>z\<in>set (hd_node (m\<lparr>load := load m - 1\<rparr>) # (xs @ ys) @ [tl_node (m\<lparr>load := load m - 1\<rparr>)]). z < brk h3"
      using lt by (simp add: h3_def hd0_def tl0_def)
  qed
  have frame: "\<forall>z. z \<notin> fp m (xs @ a # ys) \<longrightarrow> nodes h3 z = nodes h z"
  proof (intro allI impI)
    fix z assume "z \<notin> fp m (xs @ a # ys)"
    then have "z \<noteq> a" "z \<noteq> x" "z \<noteq> l" using lin xin by (auto simp: fp_def hd0_def tl0_def)
    then show "nodes h3 z = nodes h z" by (simp add: nodes3)
  qed
  have "brk h3 = brk h" "nodes h3 a = None" by (simp_all add: h3_def)
  then show ?thesis using unf ol3 frame rest by blast
qed

lemma Del_ok:
  assumes ol: "olist m h (xs @ a # ys)" and ld: "load m = length (xs @ a # ys)"
    and cp: "caps (len m)" and bk: "bk hash m h (xs @ ys)"
    and sn: "entry h (hd_node m) = None" "entry h (tl_node m) = None"
  shows "\<exists>m' h'. Del hash a m h = Some (m', h') \<and> invl hash m' h' (xs @ ys) \<and>
           brk h' = brk h \<and> nodes h' a = None \<and>
           (\<forall>z. z \<notin> fp m (xs @ a # ys) \<longrightarrow> nodes h' z = nodes h z) \<and>
           (\<forall>z\<in>set (xs @ ys). entry h' z = entry h z) \<and>
           this m' = this m \<and> hd_node m' = hd_node m \<and> tl_node m' = tl_node m \<and>
           load m' = load m - 1 \<and>
           len m' = (if len m > LEN \<and> 4 * (load m - 1) < len m then len m div 2 else len m)"
proof -
  let ?m1 = "m\<lparr>load := load m - 1\<rparr>"
  have ld0: "0 < load m" using ld by simp
  from Del_core [OF ol ld0, of hash] obtain h3 where
    unf: "Del hash a m h =
           (if len m > LEN \<and> 4 * (load m - 1) < len m
            then ChangeSpace hash (- 1) ?m1 h3 else Some (?m1, h3))"
    and ol3: "olist ?m1 h3 (xs @ ys)" and brk3: "brk h3 = brk h" and a3: "nodes h3 a = None"
    and fr3: "\<forall>z. z \<notin> fp m (xs @ a # ys) \<longrightarrow> nodes h3 z = nodes h z"
    and rest: "\<forall>z. z \<noteq> a \<longrightarrow> fld nxt h3 z = fld nxt h z \<and> entry h3 z = entry h z"
    by blast
  have dist: "distinct (xs @ a # ys)" using ol by (simp add: olist_def)
  have "hd_node m \<noteq> a" "tl_node m \<noteq> a" using ol by (auto simp: olist_def)
  then have sn3: "entry h3 (hd_node m) = None" "entry h3 (tl_node m) = None"
    using rest sn by simp_all
  have na: "\<And>z. z \<in> set (xs @ ys) \<Longrightarrow> z \<noteq> a" using dist by auto
  have same: "\<forall>z\<in>set (xs @ ys). fld nxt h3 z = fld nxt h z \<and> entry h3 z = entry h z"
    using rest na by simp
  have "bk hash ?m1 h3 (xs @ ys) = bk hash m h (xs @ ys)"
    using same by (rule bk_cong) simp_all
  then have bk3: "bk hash ?m1 h3 (xs @ ys)" using bk by simp
  have ld3: "load ?m1 = length (xs @ ys)" using ld by simp
  show ?thesis
  proof (cases "len m > LEN \<and> 4 * (load m - 1) < len m")
    case False
    have i3: "invl hash ?m1 h3 (xs @ ys)" using ol3 bk3 ld3 cp sn3 by (simp add: invl_def)
    have d: "Del hash a m h = Some (?m1, h3)" unfolding unf by (simp only: if_not_P [OF False])
    have e3: "\<forall>z\<in>set (xs @ ys). entry h3 z = entry h z" using same by simp
    show ?thesis
      unfolding d if_not_P [OF False]
      using i3 brk3 a3 fr3 e3 by simp
  next
    case True
    then have big: "13 < len m" by (simp add: LEN_def)
    have l1: "len m div 2 = (if (- 1::int) > 0 then or (push_bit (nat (- 1)) (len ?m1)) 1
                             else drop_bit (nat (- (- 1))) (len ?m1))"
      by (simp add: drop_bit_eq_div)
    have pos: "0 < len m div 2" using big by simp
    from ChangeSpace_ok [OF ol3 l1 pos, of hash] obtain bu h' where
      r: "ChangeSpace hash (- 1) ?m1 h3 = Some (?m1\<lparr>len := len m div 2, buc := bu\<rparr>, h')"
         "bk hash (?m1\<lparr>len := len m div 2, buc := bu\<rparr>) h' (xs @ ys)"
         "nxt_only (set (xs @ ys)) h3 h'"
      by blast
    let ?m2 = "?m1\<lparr>len := len m div 2, buc := bu\<rparr>"
    have "olist ?m2 h3 (xs @ ys) = olist ?m1 h3 (xs @ ys)" by (rule olist_cong_m) simp_all
    then have ol2: "olist ?m2 h' (xs @ ys)" using ol3 nxt_only_olist [OF r(3)] by simp
    have cp2: "caps (len ?m2)" using caps_shrink [OF cp big] by simp
    have inv2: "invl hash ?m2 h' (xs @ ys)"
      using ol2 r(2) ld3 cp2 sn3 nxt_only_entry [OF r(3)] by (simp add: invl_def)
    have brk2: "brk h' = brk h" using r(3) brk3 by (simp add: nxt_only_def)
    have "a \<notin> set (xs @ ys)" using dist by auto
    then have "nodes h' a = nodes h3 a" using r(3) by (simp add: nxt_only_def)
    then have a2: "nodes h' a = None" using a3 by simp
    have fr2: "\<forall>z. z \<notin> fp m (xs @ a # ys) \<longrightarrow> nodes h' z = nodes h z"
    proof (intro allI impI)
      fix z assume z: "z \<notin> fp m (xs @ a # ys)"
      then have "z \<notin> set (xs @ ys)" by (auto simp: fp_def)
      then have "nodes h' z = nodes h3 z" using r(3) by (simp add: nxt_only_def)
      then show "nodes h' z = nodes h z" using fr3 z by simp
    qed
    have en2: "\<forall>z\<in>set (xs @ ys). entry h' z = entry h z"
      using same nxt_only_entry [OF r(3)] by simp
    have d: "Del hash a m h = Some (?m2, h')"
      unfolding unf by (simp only: if_P [OF True] r(1))
    show ?thesis
      unfolding d if_P [OF True]
      using inv2 brk2 a2 fr2 en2 by simp
  qed
qed

lemma chain_pred:
  "chain h p (us @ a # vs) \<Longrightarrow> us \<noteq> [] \<Longrightarrow> fld nxt h (last us) = Some (Some a)"
proof (induction us arbitrary: p)
  case Nil
  then show ?case by simp
next
  case (Cons u us)
  from Cons.prems(1) obtain y where y: "fld nxt h u = Some y" "chain h y (us @ a # vs)"
    by (auto split: option.splits)
  show ?case
  proof (cases "us = []")
    case True
    then show ?thesis using y by simp
  next
    case False
    then have "fld nxt h (last us) = Some (Some a)" using Cons.IH [OF y(2)] by simp
    then show ?thesis using False by simp
  qed
qed

lemma bk_remove:
  assumes bk: "bk hash m h (xs @ a # ys)" and dist: "distinct (xs @ a # ys)"
    and lm: "len m' = len m" "length (buc m') = len m"
    and bo: "\<forall>j<len m. j \<noteq> i \<longrightarrow> buc m' ! j = buc m ! j"
    and en: "\<forall>z\<in>set (xs @ ys). entry h' z = entry h z"
    and nx: "\<forall>z\<in>set (xs @ ys). hash (key h z) mod len m \<noteq> i \<longrightarrow> fld nxt h' z = fld nxt h z"
    and ci: "chain h' (buc m' ! i) cs'" "distinct cs'"
      "set cs' = {z \<in> set (xs @ ys). hash (key h z) mod len m = i}"
    and ia: "i = hash (key h a) mod len m"
  shows "bk hash m' h' (xs @ ys)"
proof -
  have k: "\<And>z. z \<in> set (xs @ ys) \<Longrightarrow> key h' z = key h z"
    using en by (intro key_eqI) simp
  have s: "{z \<in> set (xs @ ys). hash (key h' z) mod len m = j} =
           {z \<in> set (xs @ ys). hash (key h z) mod len m = j}" for j
    using k by auto
  have "\<exists>cs. chain h' (buc m' ! j) cs \<and> distinct cs \<and>
          set cs = {z \<in> set (xs @ ys). hash (key h' z) mod len m = j}" if j: "j < len m" for j
  proof (cases "j = i")
    case True
    then show ?thesis unfolding s using ci by blast
  next
    case False
    from bk j obtain cs where cs: "chain h (buc m ! j) cs" "distinct cs"
      "set cs = {z \<in> set (xs @ a # ys). hash (key h z) mod len m = j}"
      unfolding bk_def by blast
    have "a \<notin> set cs" using cs(3) False ia by simp
    then have sub: "set cs = {z \<in> set (xs @ ys). hash (key h z) mod len m = j}"
      using cs(3) by auto
    have "\<forall>z\<in>set cs. fld nxt h' z = fld nxt h z"
    proof
      fix z assume "z \<in> set cs"
      then have "z \<in> set (xs @ ys)" "hash (key h z) mod len m \<noteq> i" using sub False by auto
      then show "fld nxt h' z = fld nxt h z" using nx by simp
    qed
    then have "chain h' (buc m ! j) cs = chain h (buc m ! j) cs" by (rule chain_cong)
    then have "chain h' (buc m' ! j) cs" using cs(1) bo j False by simp
    then show ?thesis unfolding s using cs(2) sub by blast
  qed
  moreover have "0 < len m" using bk by (simp add: bk_def)
  ultimately show ?thesis using lm by (simp add: bk_def)
qed

lemma erase_unlink:
  assumes inv: "invl hash m h (xs @ a # ys)"
    and np: "nodes h a = Some np" and i: "i = hash (key h a) mod len m"
  shows "\<exists>m1 h1.
      (if buc m ! i = Some a then Some (m\<lparr>buc := (buc m)[i := nxt np]\<rparr>, h)
       else do {
         it \<leftarrow> erase_loop (buc m ! i) a h;
         n \<leftarrow> nodes h it;
         b \<leftarrow> nxt n;
         nb \<leftarrow> nodes h b;
         h1 \<leftarrow> wr it (\<lambda>n. n\<lparr>nxt := nxt nb\<rparr>) h;
         Some (m, h1)
       }) = Some (m1, h1) \<and>
      bk hash m1 h1 (xs @ ys) \<and> nxt_only (set (xs @ ys)) h h1 \<and>
      this m1 = this m \<and> hd_node m1 = hd_node m \<and> tl_node m1 = tl_node m \<and>
      load m1 = load m \<and> len m1 = len m"
proof -
  from inv have bk: "bk hash m h (xs @ a # ys)" and ol: "olist m h (xs @ a # ys)"
    by (simp_all add: invl_def)
  from ol have dist: "distinct (xs @ a # ys)" by (simp add: olist_def)
  from bk have len: "0 < len m" "length (buc m) = len m" by (auto simp: bk_def)
  have il: "i < len m" using len i by simp
  with bk obtain cs where cs: "chain h (buc m ! i) cs" "distinct cs"
    "set cs = {z \<in> set (xs @ a # ys). hash (key h z) mod len m = i}"
    unfolding bk_def by blast
  have "a \<in> set cs" using cs(3) i by simp
  then obtain us vs where split: "cs = us @ a # vs" by (meson split_list)
  have a_us: "a \<notin> set us" and a_vs: "a \<notin> set vs" using cs(2) split by auto
  have ch: "chain h (buc m ! i) (us @ a # vs)" using cs(1) split by simp
  from chain_mid [OF ch] obtain x where x: "fld nxt h a = Some x" "chain h x vs" by blast
  have nx: "nxt np = x" using x(1) np by (simp add: fld_def)
  have setr: "set (us @ vs) = {z \<in> set (xs @ ys). hash (key h z) mod len m = i}"
  proof -
    have "set (us @ vs) = set cs - {a}" using split a_us a_vs by auto
    also have "\<dots> = {z \<in> set (xs @ a # ys). hash (key h z) mod len m = i} - {a}"
      using cs(3) by simp
    also have "\<dots> = {z \<in> set (xs @ ys). hash (key h z) mod len m = i}"
      using dist by auto
    finally show ?thesis .
  qed
  have dr: "distinct (us @ vs)" using cs(2) split by simp
  show ?thesis
  proof (cases "us = []")
    case True
    then have b: "buc m ! i = Some a" using ch by simp
    let ?m1 = "m\<lparr>buc := (buc m)[i := nxt np]\<rparr>"
    have "bk hash ?m1 h (xs @ ys)"
    proof (rule bk_remove [OF bk dist _ _ _ _ _ _ _ _ i])
      show "len ?m1 = len m" by simp
      show "length (buc ?m1) = len m" using len by simp
      show "\<forall>j<len m. j \<noteq> i \<longrightarrow> buc ?m1 ! j = buc m ! j" by simp
      show "\<forall>z\<in>set (xs @ ys). entry h z = entry h z" by simp
      show "\<forall>z\<in>set (xs @ ys). hash (key h z) mod len m \<noteq> i \<longrightarrow> fld nxt h z = fld nxt h z"
        by simp
      show "chain h (buc ?m1 ! i) (us @ vs)" using x(2) nx True il len by simp
      show "distinct (us @ vs)" by (rule dr)
      show "set (us @ vs) = {z \<in> set (xs @ ys). hash (key h z) mod len m = i}" by (rule setr)
    qed
    then show ?thesis using b nxt_only_refl [of "set (xs @ ys)" h] by simp
  next
    case False
    define u where "u = last us"
    have uin: "u \<in> set us" unfolding u_def using False by (rule last_in_set)
    obtain u0 us0 where us: "us = u0 # us0" using False by (cases us) auto
    have "buc m ! i = Some u0" using ch us by simp
    moreover have "u0 \<noteq> a" using a_us us by auto
    ultimately have b: "buc m ! i \<noteq> Some a" by simp
    have el: "erase_loop (buc m ! i) a h = Some u"
      unfolding u_def using ch False a_us by (rule erase_loop_ok)
    from chain_pred [OF ch False] have un: "fld nxt h u = Some (Some a)" by (simp add: u_def)
    then obtain n where n: "nodes h u = Some n" "nxt n = Some a" by (auto simp: fld_def)
    let ?h1 = "h\<lparr>nodes := (nodes h)(u \<mapsto> n\<lparr>nxt := nxt np\<rparr>)\<rparr>"
    have step: "do {
         it \<leftarrow> erase_loop (buc m ! i) a h;
         n \<leftarrow> nodes h it;
         b \<leftarrow> nxt n;
         nb \<leftarrow> nodes h b;
         h1 \<leftarrow> wr it (\<lambda>n. n\<lparr>nxt := nxt nb\<rparr>) h;
         Some (m, h1)
       } = Some (m, ?h1)"
      by (simp add: el n np wr_def)
    have no: "nxt_only {u} h ?h1" using n(1) by (rule nxt_only_wr)
    have u_cs: "u \<in> set cs" using uin split by simp
    then have u_as: "u \<in> set (xs @ ys)" "hash (key h u) mod len m = i"
      using cs(3) uin a_us dist by auto
    have c1: "chain ?h1 (buc m ! i) (us @ vs)"
      unfolding u_def
      using ch cs(2) False n(1) np unfolding split u_def by (rule chain_unlink)
    have "bk hash m ?h1 (xs @ ys)"
    proof (rule bk_remove [OF bk dist _ _ _ _ _ _ _ _ i])
      show "len m = len m" by simp
      show "length (buc m) = len m" using len by simp
      show "\<forall>j<len m. j \<noteq> i \<longrightarrow> buc m ! j = buc m ! j" by simp
      show "\<forall>z\<in>set (xs @ ys). entry ?h1 z = entry h z"
        using nxt_only_entry [OF no] by simp
      show "\<forall>z\<in>set (xs @ ys). hash (key h z) mod len m \<noteq> i \<longrightarrow> fld nxt ?h1 z = fld nxt h z"
      proof (intro ballI impI)
        fix z assume "z \<in> set (xs @ ys)" "hash (key h z) mod len m \<noteq> i"
        then have "z \<noteq> u" using u_as by auto
        then show "fld nxt ?h1 z = fld nxt h z" by (simp add: fld_def)
      qed
      show "chain ?h1 (buc m ! i) (us @ vs)" by (rule c1)
      show "distinct (us @ vs)" by (rule dr)
      show "set (us @ vs) = {z \<in> set (xs @ ys). hash (key h z) mod len m = i}" by (rule setr)
    qed
    moreover have "nxt_only (set (xs @ ys)) h ?h1"
      using no u_as(1) by (intro nxt_only_mono [OF no]) simp
    ultimately show ?thesis using b step by simp
  qed
qed

lemma fp_sub: "fp m (xs @ ys) \<subseteq> fp m (xs @ a # ys)"
  by (auto simp: fp_def)

lemma erase_ok:
  assumes inv: "invl hash m h (xs @ a # ys)"
    and pos: "at pos = Some a" "source pos = Some (this m)"
  shows "\<exists>m' h'. erase hash pos m h = Some (Inr (), m', h') \<and> invl hash m' h' (xs @ ys) \<and>
           brk h' = brk h \<and> nodes h' a = None \<and>
           (\<forall>z. z \<notin> fp m (xs @ a # ys) \<longrightarrow> nodes h' z = nodes h z) \<and>
           (\<forall>z\<in>set (xs @ ys). entry h' z = entry h z) \<and>
           this m' = this m \<and> hd_node m' = hd_node m \<and> tl_node m' = tl_node m \<and>
           load m' = load m - 1 \<and>
           len m' = (if len m > LEN \<and> 4 * (load m - 1) < len m then len m div 2 else len m)"
proof -
  from inv have bk: "bk hash m h (xs @ a # ys)" and ol: "olist m h (xs @ a # ys)"
    and ld: "load m = length (xs @ a # ys)" and cp: "caps (len m)"
    and sn: "entry h (hd_node m) = None" "entry h (tl_node m) = None"
    by (simp_all add: invl_def)
  from ol have atl: "a \<noteq> tl_node m" and ent: "entry h a \<noteq> None"
    by (auto simp: olist_def)
  then obtain np kv where np: "nodes h a = Some np" and kv: "val np = Some kv"
    by (auto simp: entry_Some)
  have ka: "key h a = fst kv" using np kv by (simp add: key_def entry_def)
  define i where "i = hash (key h a) mod len m"
  from bk have len: "0 < len m" "length (buc m) = len m" by (auto simp: bk_def)
  have il: "i < len m" using len by (simp add: i_def)
  have g: "len m \<noteq> 0" "\<not> len m \<le> i" using il by simp_all
  from erase_unlink [OF inv np i_def] obtain m1 h1 where
    st: "(if buc m ! i = Some a then Some (m\<lparr>buc := (buc m)[i := nxt np]\<rparr>, h)
       else do {
         it \<leftarrow> erase_loop (buc m ! i) a h;
         n \<leftarrow> nodes h it;
         b \<leftarrow> nxt n;
         nb \<leftarrow> nodes h b;
         h1 \<leftarrow> wr it (\<lambda>n. n\<lparr>nxt := nxt nb\<rparr>) h;
         Some (m, h1)
       }) = Some (m1, h1)"
    and bk1: "bk hash m1 h1 (xs @ ys)" and no: "nxt_only (set (xs @ ys)) h h1"
    and m1: "this m1 = this m" "hd_node m1 = hd_node m" "tl_node m1 = tl_node m"
      "load m1 = load m" "len m1 = len m"
    by blast
  have unf: "erase hash pos m h = do { (m2, h2) \<leftarrow> Del hash a m1 h1; Some (Inr (), m2, h2) }"
    unfolding erase_def
    using atl g by (simp add: pos np kv Let_def ka [symmetric] i_def [symmetric] st len)
  have "olist m1 h (xs @ a # ys) = olist m h (xs @ a # ys)"
    by (rule olist_cong_m) (simp_all add: m1)
  then have ol1: "olist m1 h1 (xs @ a # ys)" using ol nxt_only_olist [OF no] by simp
  have ld1: "load m1 = length (xs @ a # ys)" using ld m1 by simp
  have cp1: "caps (len m1)" using cp m1 by simp
  have sn1: "entry h1 (hd_node m1) = None" "entry h1 (tl_node m1) = None"
    using sn nxt_only_entry [OF no] by (simp_all add: m1)
  from Del_ok [OF ol1 ld1 cp1 bk1 sn1] obtain m' h' where
    d: "Del hash a m1 h1 = Some (m', h')" and i': "invl hash m' h' (xs @ ys)"
    and b': "brk h' = brk h1" and a': "nodes h' a = None"
    and f': "\<forall>z. z \<notin> fp m1 (xs @ a # ys) \<longrightarrow> nodes h' z = nodes h1 z"
    and e': "\<forall>z\<in>set (xs @ ys). entry h' z = entry h1 z"
    and m': "this m' = this m1" "hd_node m' = hd_node m1" "tl_node m' = tl_node m1"
      "load m' = load m1 - 1"
      "len m' = (if len m1 > LEN \<and> 4 * (load m1 - 1) < len m1 then len m1 div 2 else len m1)"
    by blast
  have fpe: "fp m1 (xs @ a # ys) = fp m (xs @ a # ys)" by (simp add: fp_def m1)
  have fr: "\<forall>z. z \<notin> fp m (xs @ a # ys) \<longrightarrow> nodes h' z = nodes h z"
  proof (intro allI impI)
    fix z assume z: "z \<notin> fp m (xs @ a # ys)"
    then have "z \<notin> set (xs @ ys)" by (auto simp: fp_def)
    then have "nodes h1 z = nodes h z" using no by (simp add: nxt_only_def)
    then show "nodes h' z = nodes h z" using f' z fpe by simp
  qed
  have en: "\<forall>z\<in>set (xs @ ys). entry h' z = entry h z"
    using e' nxt_only_entry [OF no] by simp
  have bb: "brk h' = brk h" using b' no by (simp add: nxt_only_def)
  have e: "erase hash pos m h = Some (Inr (), m', h')" unfolding unf by (simp add: d)
  show ?thesis
    unfolding e using i' bb a' fr en m' by (simp add: m1)
qed

lemma ClearNode_loop_ok:
  assumes "olist m h as" "load m = length as" "len m \<le> LEN"
    "fld time_nxt h (hd_node m) = Some it"
  shows "\<exists>h'. ClearNode_loop hash it m h = Some (m\<lparr>load := 0\<rparr>, h') \<and>
           olist (m\<lparr>load := 0\<rparr>) h' [] \<and> brk h' = brk h \<and>
           (\<forall>z. z \<notin> fp m as \<longrightarrow> nodes h' z = nodes h z) \<and>
           (\<forall>z\<in>set as. nodes h' z = None) \<and>
           entry h' (hd_node m) = entry h (hd_node m) \<and>
           entry h' (tl_node m) = entry h (tl_node m)"
  using assms
proof (induction as arbitrary: m h it)
  case Nil
  from Nil.prems(1) have "dll h (hd_node m) [] (tl_node m)" by (simp add: olist_def)
  then have it: "it = Some (tl_node m)" using Nil.prems(4) by simp
  have m0: "m\<lparr>load := 0\<rparr> = m" using Nil.prems(2) by simp
  have "ClearNode_loop hash it m h = Some (m, h)"
    by (subst ClearNode_loop.simps) (simp add: it)
  then show ?case unfolding m0 using Nil.prems(1) by simp
next
  case (Cons a as)
  let ?m1 = "m\<lparr>load := load m - 1\<rparr>"
  from Cons.prems(1) have dl: "dll h (hd_node m) (a # as) (tl_node m)"
    and dist: "distinct (hd_node m # (a # as) @ [tl_node m])"
    by (simp_all add: olist_def)
  have it: "it = Some a" using dl Cons.prems(4) by simp
  have atl: "a \<noteq> tl_node m" using dist by auto
  from dl have d2: "dll h a as (tl_node m)" by simp
  from dll_first [OF d2] obtain n where n: "nodes h a = Some n"
    "time_nxt n = Some (hd (as @ [tl_node m]))"
    by (auto simp: fld_def)
  have ol: "olist m h ([] @ a # as)" using Cons.prems(1) by simp
  have ld0: "0 < load m" using Cons.prems(2) by simp
  have nshr: "\<not> (len m > LEN \<and> 4 * (load m - 1) < len m)" using Cons.prems(3) by simp
  from Del_core [OF ol ld0, of hash] obtain h3 where
    d: "Del hash a m h =
           (if len m > LEN \<and> 4 * (load m - 1) < len m
            then ChangeSpace hash (- 1) ?m1 h3 else Some (?m1, h3))"
    and ol3: "olist ?m1 h3 ([] @ as)" and brk3: "brk h3 = brk h" and a3: "nodes h3 a = None"
    and fr3: "\<forall>z. z \<notin> fp m ([] @ a # as) \<longrightarrow> nodes h3 z = nodes h z"
    and rest: "\<forall>z. z \<noteq> a \<longrightarrow> fld nxt h3 z = fld nxt h z \<and> entry h3 z = entry h z"
    by blast
  have d': "Del hash a m h = Some (?m1, h3)" unfolding d by (simp only: if_not_P [OF nshr])
  have unf: "ClearNode_loop hash it m h = ClearNode_loop hash (time_nxt n) ?m1 h3"
    using atl by (subst ClearNode_loop.simps) (simp add: it n(1) d')
  have ol3': "olist ?m1 h3 as" using ol3 by simp
  then have "dll h3 (hd_node ?m1) as (tl_node ?m1)" by (simp add: olist_def)
  from dll_first [OF this] have f3: "fld time_nxt h3 (hd_node ?m1) = Some (time_nxt n)"
    using n(2) by simp
  have ld3: "load ?m1 = length as" using Cons.prems(2) by simp
  have le3: "len ?m1 \<le> LEN" using Cons.prems(3) by simp
  from Cons.IH [OF ol3' ld3 le3 f3] obtain h' where
    r: "ClearNode_loop hash (time_nxt n) ?m1 h3 = Some (?m1\<lparr>load := 0\<rparr>, h')"
    "olist (?m1\<lparr>load := 0\<rparr>) h' []" "brk h' = brk h3"
    "\<forall>z. z \<notin> fp ?m1 as \<longrightarrow> nodes h' z = nodes h3 z"
    "\<forall>z\<in>set as. nodes h' z = None"
    "entry h' (hd_node ?m1) = entry h3 (hd_node ?m1)"
    "entry h' (tl_node ?m1) = entry h3 (tl_node ?m1)"
    by blast
  have "hd_node m \<noteq> a" using dist by auto
  then have sh: "entry h' (hd_node m) = entry h (hd_node m)" using r(6) rest by simp
  have st: "entry h' (tl_node m) = entry h (tl_node m)" using r(7) rest atl by simp
  have meq: "?m1\<lparr>load := 0\<rparr> = m\<lparr>load := 0\<rparr>" by simp
  have fr: "\<forall>z. z \<notin> fp m (a # as) \<longrightarrow> nodes h' z = nodes h z"
  proof (intro allI impI)
    fix z assume z: "z \<notin> fp m (a # as)"
    then have "z \<notin> fp ?m1 as" by (auto simp: fp_def)
    then have "nodes h' z = nodes h3 z" using r(4) by simp
    then show "nodes h' z = nodes h z" using fr3 z by simp
  qed
  have "a \<notin> fp ?m1 as" using dist by (auto simp: fp_def)
  then have "nodes h' a = None" using r(4) a3 by simp
  then have del: "\<forall>z\<in>set (a # as). nodes h' z = None" using r(5) by simp
  show ?case
    unfolding unf using r(1,2,3) fr del brk3 sh st unfolding meq by simp
qed

lemma clear_ok:
  assumes inv: "invl hash m h as"
  shows "\<exists>m' h'. clear hash m h = Some (m', h') \<and> invl hash m' h' [] \<and> brk h' = brk h \<and>
           (\<forall>z. z \<notin> fp m as \<longrightarrow> nodes h' z = nodes h z) \<and>
           this m' = this m \<and> hd_node m' = hd_node m \<and> tl_node m' = tl_node m \<and>
           load m' = 0 \<and> len m' = LEN"
proof -
  let ?m1 = "m\<lparr>len := LEN\<rparr>"
  from inv have ol: "olist m h as" and ld: "load m = length as"
    and sn: "entry h (hd_node m) = None" "entry h (tl_node m) = None"
    by (simp_all add: invl_def)
  have "olist ?m1 h as = olist m h as" by (rule olist_cong_m) simp_all
  then have ol1: "olist ?m1 h as" using ol by simp
  then have "dll h (hd_node ?m1) as (tl_node ?m1)" by (simp add: olist_def)
  from dll_first [OF this] obtain nh where nh: "nodes h (hd_node m) = Some nh"
    and f: "fld time_nxt h (hd_node ?m1) = Some (time_nxt nh)"
    by (auto simp: fld_def)
  have ld1: "load ?m1 = length as" using ld by simp
  have le1: "len ?m1 \<le> LEN" by simp
  from ClearNode_loop_ok [OF ol1 ld1 le1 f, of hash] obtain h' where
    r: "ClearNode_loop hash (time_nxt nh) ?m1 h = Some (?m1\<lparr>load := 0\<rparr>, h')"
    "olist (?m1\<lparr>load := 0\<rparr>) h' []" "brk h' = brk h"
    "\<forall>z. z \<notin> fp ?m1 as \<longrightarrow> nodes h' z = nodes h z"
    "entry h' (hd_node ?m1) = entry h (hd_node ?m1)"
    "entry h' (tl_node ?m1) = entry h (tl_node ?m1)"
    by blast
  let ?m2 = "?m1\<lparr>load := 0, buc := replicate LEN None\<rparr>"
  have cl: "clear hash m h = Some (?m2, h')"
    by (simp add: clear_def ClearNode_def nh r(1))
  have "olist ?m2 h' [] = olist (?m1\<lparr>load := 0\<rparr>) h' []" by (rule olist_cong_m) simp_all
  then have ol2: "olist ?m2 h' []" using r(2) by simp
  have bk2: "bk hash ?m2 h' []" by (simp add: bk_def LEN_def)
  have inv2: "invl hash ?m2 h' []" using ol2 bk2 caps_LEN r(5,6) sn by (simp add: invl_def)
  have fpe: "fp ?m1 as = fp m as" by (simp add: fp_def)
  show ?thesis unfolding cl using inv2 r(3,4) fpe by simp
qed

lemma ents_cong: "(\<forall>a\<in>set as. entry h' a = entry h a) \<Longrightarrow> ents h' as = ents h as"
  by (simp add: ents_def)

lemma ents_append: "ents h (as @ bs) = ents h as @ ents h bs"
  by (simp add: ents_def)

lemma keys_ents: "map fst (ents h as) = map (key h) as"
  by (simp add: ents_def key_def)

lemma ctor_ok:
  "\<exists>m h'. ctor self h = Some (m, h') \<and> invl hash m h' [] \<and> this m = self \<and>
      hd_node m = brk h \<and> tl_node m = Suc (brk h) \<and> brk h' = Suc (Suc (brk h)) \<and>
      len m = LEN \<and> load m = 0 \<and> (\<forall>z. z < brk h \<longrightarrow> nodes h' z = nodes h z)"
proof -
  let ?m = "\<lparr>this = self, len = LEN, load = 0, hd_node = brk h, tl_node = Suc (brk h),
             buc = replicate LEN None\<rparr>"
  let ?h = "h\<lparr>nodes := (nodes h)(brk h \<mapsto> Node0\<lparr>time_nxt := Some (Suc (brk h))\<rparr>,
                  Suc (brk h) \<mapsto> Node0\<lparr>time_lst := Some (brk h)\<rparr>), brk := Suc (Suc (brk h))\<rparr>"
  have c: "ctor self h = Some (?m, ?h)"
    by (simp add: ctor_def new_Node_def wr_def Let_def fun_upd_twist)
  have ol: "olist ?m ?h []"
    by (simp add: olist_def fld_def)
  have bk: "bk hash ?m ?h []" by (simp add: bk_def LEN_def)
  have "invl hash ?m ?h []"
    using ol bk caps_LEN by (simp add: invl_def entry_def Node0_def)
  then show ?thesis unfolding c by simp
qed

lemma iterate_ok:
  "tpath h p as (tl_node m) \<Longrightarrow> tl_node m \<notin> set as \<Longrightarrow> \<forall>a\<in>set as. entry h a \<noteq> None \<Longrightarrow>
   iterate m h \<lparr>source = Some (this m), at = p\<rparr> = Some (ents h as)"
proof (induction as arbitrary: p)
  case Nil
  then show ?case
    by (subst iterate.simps) (simp add: iterator_eq_def end_lhm_def ents_def)
next
  case (Cons a as)
  from Cons.prems(1) obtain x where p: "p = Some a" and x: "fld time_nxt h a = Some x"
    and tp: "tpath h x as (tl_node m)"
    by (auto split: option.splits)
  from Cons.prems(3) obtain kv where kv: "entry h a = Some kv" by auto
  then obtain n where n: "nodes h a = Some n" "val n = Some kv" by (auto simp: entry_Some)
  have tn: "time_nxt n = x" using x n by (simp add: fld_def)
  have atl: "a \<noteq> tl_node m" using Cons.prems(2) by auto
  have ih: "iterate m h \<lparr>source = Some (this m), at = x\<rparr> = Some (ents h as)"
    using Cons.IH [OF tp] Cons.prems(2,3) by simp
  have "iterate m h \<lparr>source = Some (this m), at = p\<rparr> = Some (kv # ents h as)"
    using atl
    by (subst iterate.simps)
       (simp add: iterator_eq_def end_lhm_def iterator_deref_def iterator_inc_def p n tn ih)
  then show ?case using kv by (simp add: ents_def)
qed

lemma to_list_ok:
  assumes "olist m h as"
  shows "to_list m h = Some (ents h as)"
proof -
  from assms have dl: "dll h (hd_node m) as (tl_node m)" by (simp add: olist_def)
  from dll_tpath [OF dl] obtain it where it: "fld time_nxt h (hd_node m) = Some it"
    "tpath h it as (tl_node m)" by blast
  then obtain nh where nh: "nodes h (hd_node m) = Some nh" "time_nxt nh = it"
    by (auto simp: fld_def)
  have "iterate m h \<lparr>source = Some (this m), at = it\<rparr> = Some (ents h as)"
    using it(2) assms by (intro iterate_ok) (auto simp: olist_def)
  then show ?thesis by (simp add: to_list_def begin_lhm_def nh)
qed

lemma bk_cong_key:
  assumes "\<forall>x\<in>set as. fld nxt h' x = fld nxt h x \<and> key h' x = key h x"
    "len m' = len m" "buc m' = buc m"
  shows "bk hash m' h' as = bk hash m h as"
proof -
  have s: "{a \<in> set as. hash (key h' a) mod len m = i} = {a \<in> set as. hash (key h a) mod len m = i}" for i
    using assms(1) by auto
  have c: "chain h' p cs = chain h p cs" if "set cs \<subseteq> set as" for p cs
    using that assms(1) by (intro chain_cong) auto
  have "(chain h' p cs \<and> distinct cs \<and> set cs = {a \<in> set as. hash (key h' a) mod len m = i}) =
        (chain h p cs \<and> distinct cs \<and> set cs = {a \<in> set as. hash (key h a) mod len m = i})" for p cs i
    unfolding s using c [of cs p] by auto
  then show ?thesis by (simp add: bk_def assms(2,3))
qed

lemma ref_set_ok:
  assumes inv: "invl hash m h as" and a: "a \<in> set as"
  shows "\<exists>h'. ref_set a v h = Some h' \<and> invl hash m h' as \<and> brk h' = brk h \<and>
           entry h' a = Some (key h a, v) \<and> (\<forall>z. z \<noteq> a \<longrightarrow> nodes h' z = nodes h z)"
proof -
  from inv have ol: "olist m h as" and bk: "bk hash m h as" by (simp_all add: invl_def)
  from ol a obtain kv where kv: "entry h a = Some kv" by (auto simp: olist_def)
  then obtain n where n: "nodes h a = Some n" "val n = Some kv" by (auto simp: entry_Some)
  let ?h = "h\<lparr>nodes := (nodes h)(a \<mapsto> n\<lparr>val := Some (fst kv, v)\<rparr>)\<rparr>"
  have r: "ref_set a v h = Some ?h" by (simp add: ref_set_def n wr_def)
  have ka: "key h a = fst kv" using kv by (simp add: key_def)
  have ea: "entry ?h a = Some (key h a, v)" by (simp add: entry_def ka)
  have eo: "\<And>z. z \<noteq> a \<Longrightarrow> entry ?h z = entry h z" by (simp add: entry_def)
  have k: "key ?h z = key h z" for z
    by (cases "z = a") (simp_all add: key_def ea eo ka)
  have f: "fld time_nxt ?h z = fld time_nxt h z" "fld time_lst ?h z = fld time_lst h z"
    "fld nxt ?h z = fld nxt h z" for z
    using n by (simp_all add: fld_def)
  have en: "entry ?h z \<noteq> None" if "entry h z \<noteq> None" for z
    using that by (cases "z = a") (simp_all add: ea eo)
  have dc: "dll ?h (hd_node m) as (tl_node m) = dll h (hd_node m) as (tl_node m)"
    by (rule dll_cong) (simp_all add: f)
  have km: "map (key ?h) as = map (key h) as" by (simp add: k)
  have ol': "olist m ?h as"
    unfolding olist_def dc km using ol en by (simp add: olist_def)
  have "bk hash m ?h as = bk hash m h as" by (rule bk_cong_key) (simp_all add: f k)
  then have bk': "bk hash m ?h as" using bk by simp
  have "hd_node m \<noteq> a" "tl_node m \<noteq> a" using ol a by (auto simp: olist_def)
  then have "entry ?h (hd_node m) = None" "entry ?h (tl_node m) = None"
    using inv eo by (simp_all add: invl_def)
  then have "invl hash m ?h as" using inv ol' bk' by (simp add: invl_def)
  then show ?thesis unfolding r using ea by simp
qed

lemma erase_loop_none:
  "chain h p cs \<Longrightarrow> a \<notin> set cs \<Longrightarrow> erase_loop p a h = None"
proof (induction cs arbitrary: p)
  case Nil
  then show ?case by (subst erase_loop.simps) simp
next
  case (Cons u cs)
  from Cons.prems(1) obtain n where p: "p = Some u" and n: "nodes h u = Some n"
    and ch: "chain h (nxt n) cs"
    by (auto simp: fld_def split: option.splits)
  have "nxt n \<noteq> Some a"
  proof
    assume "nxt n = Some a"
    then have "chain h (Some a) cs" using ch by simp
    then have "a \<in> set cs" by (cases cs) auto
    then show False using Cons.prems(2) by simp
  qed
  moreover have "erase_loop (nxt n) a h = None" using Cons.IH [OF ch] Cons.prems(2) by simp
  ultimately show ?case using p n by (subst erase_loop.simps) simp
qed

lemma erase_foreign:
  assumes inv: "invl hash m h as" and a: "at pos = Some a" "a \<notin> set as" "a \<noteq> tl_node m"
    and src: "source pos = Some (this m)"
  shows "erase hash pos m h = None"
proof (cases "nodes h a")
  case None
  then show ?thesis using a src by (simp add: erase_def)
next
  case (Some np)
  show ?thesis
  proof (cases "val np")
    case None
    then show ?thesis using a src Some by (simp add: erase_def)
  next
    case (Some kv)
    from inv have bk: "bk hash m h as" by (simp add: invl_def)
    then have len: "0 < len m" "length (buc m) = len m" by (auto simp: bk_def)
    define i where "i = hash (fst kv) mod len m"
    have il: "i < len m" using len by (simp add: i_def)
    with bk obtain cs where cs: "chain h (buc m ! i) cs"
      "set cs = {z \<in> set as. hash (key h z) mod len m = i}"
      unfolding bk_def by blast
    have acs: "a \<notin> set cs" using cs(2) a(2) by simp
    have b: "buc m ! i \<noteq> Some a"
    proof
      assume "buc m ! i = Some a"
      then have "chain h (Some a) cs" using cs(1) by simp
      then have "a \<in> set cs" by (cases cs) auto
      then show False using acs by simp
    qed
    have el: "erase_loop (buc m ! i) a h = None" using cs(1) acs by (rule erase_loop_none)
    show ?thesis
      unfolding erase_def
      using a src \<open>nodes h a = Some np\<close> Some b el
      by (simp add: Let_def i_def [symmetric])
  qed
qed

lemma erase_cases:
  assumes inv: "invl hash m h as" and e: "erase hash pos m h = Some (r, m', h')"
  shows "(r = Inl invalid_iterator \<and> m' = m \<and> h' = h) \<or>
         (\<exists>xs a ys. as = xs @ a # ys \<and> at pos = Some a \<and> source pos = Some (this m))"
proof (cases "at pos = Some (tl_node m) \<or> source pos \<noteq> Some (this m)")
  case True
  then show ?thesis using e by (simp add: erase_def)
next
  case False
  then have src: "source pos = Some (this m)" and ntl: "at pos \<noteq> Some (tl_node m)" by simp_all
  show ?thesis
  proof (cases "at pos")
    case None
    then show ?thesis using e src by (simp add: erase_def)
  next
    case (Some a)
    have "a \<in> set as"
    proof (rule ccontr)
      assume "a \<notin> set as"
      then have "erase hash pos m h = None"
        using erase_foreign [OF inv Some _ _ src] ntl Some by simp
      then show False using e by simp
    qed
    then obtain xs ys where "as = xs @ a # ys" by (meson split_list)
    then show ?thesis using Some src by blast
  qed
qed

lemma live_not_tl: "invl hash m h as \<Longrightarrow> a \<in> set as \<Longrightarrow> a \<noteq> tl_node m"
  by (auto simp: invl_def olist_def)

lemma insert_dup:
  assumes inv: "invl hash m h as" and a: "a \<in> set as" "key h a = fst kv"
  shows "insert_lhm hash kv m h = Some ((\<lparr>source = Some (this m), at = Some a\<rparr>, False), m, h)"
  using Find_present [OF inv a] live_not_tl [OF inv a(1)] by (simp add: insert_lhm_def)

lemma insert_new:
  assumes inv: "invl hash m h as" and fresh: "fst kv \<notin> key h ` set as"
  shows "\<exists>m' h'. insert_lhm hash kv m h =
             Some ((\<lparr>source = Some (this m), at = Some (brk h)\<rparr>, True), m', h') \<and>
           invl hash m' h' (as @ [brk h]) \<and>
           entry h' (brk h) = Some kv \<and> (\<forall>a\<in>set as. entry h' a = entry h a) \<and>
           brk h' = Suc (brk h) \<and>
           (\<forall>x. x \<notin> fp m as \<longrightarrow> x \<noteq> brk h \<longrightarrow> nodes h' x = nodes h x) \<and>
           this m' = this m \<and> hd_node m' = hd_node m \<and> tl_node m' = tl_node m \<and>
           load m' = Suc (load m) \<and>
           len m' = (if load m > len m then 2 * len m + 1 else len m)"
proof -
  from Add_ok [OF inv fresh] obtain m' h' where
    r: "Add hash kv m h = Some (brk h, m', h')" "invl hash m' h' (as @ [brk h])"
       "entry h' (brk h) = Some kv" "\<forall>a\<in>set as. entry h' a = entry h a"
       "brk h' = Suc (brk h)"
       "\<forall>x. x \<notin> fp m as \<longrightarrow> x \<noteq> brk h \<longrightarrow> nodes h' x = nodes h x"
       "this m' = this m" "hd_node m' = hd_node m" "tl_node m' = tl_node m"
       "load m' = Suc (load m)" "len m' = (if load m > len m then 2 * len m + 1 else len m)"
    by blast
  have "insert_lhm hash kv m h = Some ((\<lparr>source = Some (this m), at = Some (brk h)\<rparr>, True), m', h')"
    using Find_absent [OF inv fresh] r(1,7) by (simp add: insert_lhm_def)
  then show ?thesis using r by blast
qed

lemma subscript_old:
  assumes inv: "invl hash m h as" and a: "a \<in> set as" "key h a = k"
  shows "subscript hash dflt k m h = Some (a, m, h)"
proof -
  from inv a(1) obtain kv where "entry h a = Some kv" by (auto simp: invl_def olist_def)
  then obtain n where "nodes h a = Some n" "val n = Some kv" by (auto simp: entry_Some)
  then show ?thesis
    using Find_present [OF inv a] live_not_tl [OF inv a(1)] by (simp add: subscript_def)
qed

lemma subscript_new:
  assumes inv: "invl hash m h as" and fresh: "k \<notin> key h ` set as"
  shows "\<exists>m' h'. subscript hash dflt k m h = Some (brk h, m', h') \<and>
           invl hash m' h' (as @ [brk h]) \<and>
           entry h' (brk h) = Some (k, dflt) \<and> (\<forall>a\<in>set as. entry h' a = entry h a) \<and>
           brk h' = Suc (brk h) \<and>
           (\<forall>x. x \<notin> fp m as \<longrightarrow> x \<noteq> brk h \<longrightarrow> nodes h' x = nodes h x) \<and>
           this m' = this m \<and> hd_node m' = hd_node m \<and> tl_node m' = tl_node m \<and>
           load m' = Suc (load m) \<and>
           len m' = (if load m > len m then 2 * len m + 1 else len m)"
proof -
  have fresh': "fst (k, dflt) \<notin> key h ` set as" using fresh by simp
  from Add_ok [OF inv fresh'] obtain m' h' where
    r: "Add hash (k, dflt) m h = Some (brk h, m', h')" "invl hash m' h' (as @ [brk h])"
       "entry h' (brk h) = Some (k, dflt)" "\<forall>a\<in>set as. entry h' a = entry h a"
       "brk h' = Suc (brk h)"
       "\<forall>x. x \<notin> fp m as \<longrightarrow> x \<noteq> brk h \<longrightarrow> nodes h' x = nodes h x"
       "this m' = this m" "hd_node m' = hd_node m" "tl_node m' = tl_node m"
       "load m' = Suc (load m)" "len m' = (if load m > len m then 2 * len m + 1 else len m)"
    by blast
  from r(3) obtain n where "nodes h' (brk h) = Some n" "val n = Some (k, dflt)"
    by (auto simp: entry_Some)
  then have "subscript hash dflt k m h = Some (brk h, m', h')"
    using Find_absent [OF inv fresh] r(1) by (simp add: subscript_def)
  then show ?thesis using r by blast
qed

lemma at_present:
  assumes inv: "invl hash m h as" and a: "a \<in> set as" "key h a = k"
  shows "at_lhm hash k m h = Some (Inr a, m, h)" "at_const hash k m h = Some (Inr a, m, h)"
proof -
  from inv a(1) obtain kv where "entry h a = Some kv" by (auto simp: invl_def olist_def)
  then obtain n where n: "nodes h a = Some n" "val n = Some kv" by (auto simp: entry_Some)
  show "at_lhm hash k m h = Some (Inr a, m, h)"
    using Find_present [OF inv a] live_not_tl [OF inv a(1)] n by (simp add: at_lhm_def)
  show "at_const hash k m h = Some (Inr a, m, h)"
    using Find_present [OF inv a] live_not_tl [OF inv a(1)] n by (simp add: at_const_def)
qed

lemma at_absent:
  assumes inv: "invl hash m h as" and fresh: "k \<notin> key h ` set as"
  shows "at_lhm hash k m h = Some (Inl index_out_of_bound, m, h)"
    "at_const hash k m h = Some (Inl index_out_of_bound, m, h)"
  using Find_absent [OF inv fresh] by (simp_all add: at_lhm_def at_const_def)

lemma key_cases:
  "k \<in> key h ` set as \<or> k \<notin> key h ` set as"
  by simp

lemma step_invl:
  assumes inv: "invl hash m h as" and st: "step hash (m, h) (m', h')"
  shows "\<exists>as'. invl hash m' h' as' \<and> this m' = this m \<and> hd_node m' = hd_node m \<and>
           tl_node m' = tl_node m \<and> brk h \<le> brk h' \<and>
           set as' \<subseteq> set as \<union> {brk h..<brk h'} \<and>
           (\<forall>z. z \<notin> fp m as \<longrightarrow> z < brk h \<longrightarrow> nodes h' z = nodes h z)"
  using st
proof (cases rule: step.cases)
  case (step_insert kv r)
  show ?thesis
  proof (cases "fst kv \<in> key h ` set as")
    case True
    then obtain a where a: "a \<in> set as" "key h a = fst kv" by auto
    from insert_dup [OF inv a] step_insert have "m' = m" "h' = h" by simp_all
    then show ?thesis using inv by auto
  next
    case False
    from insert_new [OF inv False] step_insert obtain
      r: "invl hash m' h' (as @ [brk h])" "brk h' = Suc (brk h)"
         "\<forall>x. x \<notin> fp m as \<longrightarrow> x \<noteq> brk h \<longrightarrow> nodes h' x = nodes h x"
         "this m' = this m" "hd_node m' = hd_node m" "tl_node m' = tl_node m"
      by auto
    have "set (as @ [brk h]) \<subseteq> set as \<union> {brk h..<brk h'}" using r(2) by auto
    moreover have "\<forall>z. z \<notin> fp m as \<longrightarrow> z < brk h \<longrightarrow> nodes h' z = nodes h z"
      using r(3) by auto
    ultimately show ?thesis using r by (intro exI [of _ "as @ [brk h]"]) simp
  qed
next
  case (step_erase pos e)
  from erase_cases [OF inv step_erase] show ?thesis
  proof
    assume "e = Inl invalid_iterator \<and> m' = m \<and> h' = h"
    then show ?thesis using inv by auto
  next
    assume "\<exists>xs a ys. as = xs @ a # ys \<and> at pos = Some a \<and> source pos = Some (this m)"
    then obtain xs a ys where s: "as = xs @ a # ys" "at pos = Some a" "source pos = Some (this m)"
      by blast
    from erase_ok [OF inv [unfolded s(1)] s(2,3)] step_erase obtain
      r: "invl hash m' h' (xs @ ys)" "brk h' = brk h"
         "\<forall>z. z \<notin> fp m (xs @ a # ys) \<longrightarrow> nodes h' z = nodes h z"
         "this m' = this m" "hd_node m' = hd_node m" "tl_node m' = tl_node m"
      by auto
    have "set (xs @ ys) \<subseteq> set as \<union> {brk h..<brk h'}" using s(1) by auto
    then show ?thesis using r s(1) by (intro exI [of _ "xs @ ys"]) simp
  qed
next
  case (step_subscript dflt k p)
  show ?thesis
  proof (cases "k \<in> key h ` set as")
    case True
    then obtain a where a: "a \<in> set as" "key h a = k" by auto
    from subscript_old [OF inv a, of dflt] step_subscript have "m' = m" "h' = h" by simp_all
    then show ?thesis using inv by auto
  next
    case False
    from subscript_new [OF inv False, of dflt] step_subscript obtain
      r: "invl hash m' h' (as @ [brk h])" "brk h' = Suc (brk h)"
         "\<forall>x. x \<notin> fp m as \<longrightarrow> x \<noteq> brk h \<longrightarrow> nodes h' x = nodes h x"
         "this m' = this m" "hd_node m' = hd_node m" "tl_node m' = tl_node m"
      by auto
    have "set (as @ [brk h]) \<subseteq> set as \<union> {brk h..<brk h'}" using r(2) by auto
    moreover have "\<forall>z. z \<notin> fp m as \<longrightarrow> z < brk h \<longrightarrow> nodes h' z = nodes h z"
      using r(3) by auto
    ultimately show ?thesis using r by (intro exI [of _ "as @ [brk h]"]) simp
  qed
next
  case step_clear
  from clear_ok [OF inv] step_clear obtain
    r: "invl hash m' h' []" "brk h' = brk h"
       "\<forall>z. z \<notin> fp m as \<longrightarrow> nodes h' z = nodes h z"
       "this m' = this m" "hd_node m' = hd_node m" "tl_node m' = tl_node m"
    by auto
  then show ?thesis by (intro exI [of _ "[]"]) simp
next
  case (step_assign k p h1 v)
  show ?thesis
  proof (cases "k \<in> key h ` set as")
    case True
    then obtain a where a: "a \<in> set as" "key h a = k" by auto
    from at_present(1) [OF inv a] step_assign(1) have e: "p = a" "m' = m" "h1 = h" by simp_all
    from ref_set_ok [OF inv a(1), of v] step_assign(2) e obtain
      r: "invl hash m h' as" "brk h' = brk h" "\<forall>z. z \<noteq> a \<longrightarrow> nodes h' z = nodes h z"
      by auto
    have "\<forall>z. z \<notin> fp m as \<longrightarrow> z < brk h \<longrightarrow> nodes h' z = nodes h z"
      using r(3) a(1) by (auto simp: fp_def)
    then show ?thesis using r e by (intro exI [of _ as]) simp
  next
    case False
    from at_absent(1) [OF inv False] step_assign(1) show ?thesis by simp
  qed
qed

lemma copy_loop_ok:
  assumes "tpath h it bs (tl_node obj)" "tl_node obj \<notin> set bs"
    "\<forall>a\<in>set bs. entry h a \<noteq> None" "distinct (map (key h) bs)"
    "invl hash m h asB" "key h ` set bs \<inter> key h ` set asB = {}"
    "set bs \<inter> fp m asB = {}" "\<forall>a\<in>set bs. a < brk h"
  shows "\<exists>m' h' asB'. copy_loop hash it obj m h = Some (m', h') \<and>
           invl hash m' h' (asB @ asB') \<and> ents h' (asB @ asB') = ents h asB @ ents h bs \<and>
           brk h \<le> brk h' \<and> set asB' \<subseteq> {brk h..<brk h'} \<and>
           (\<forall>z. z < brk h \<longrightarrow> z \<notin> fp m asB \<longrightarrow> nodes h' z = nodes h z) \<and>
           this m' = this m \<and> hd_node m' = hd_node m \<and> tl_node m' = tl_node m"
  using assms
proof (induction bs arbitrary: it m h asB)
  case Nil
  then have "copy_loop hash it obj m h = Some (m, h)"
    by (subst copy_loop.simps) simp
  then show ?case using Nil.prems(5) by (intro exI [of _ m] exI [of _ h] exI [of _ "[]"]) (simp add: ents_def)
next
  case (Cons a bs)
  from Cons.prems(1) obtain x where it: "it = Some a" and x: "fld time_nxt h a = Some x"
    and tp: "tpath h x bs (tl_node obj)"
    by (auto split: option.splits)
  from Cons.prems(3) obtain kv where kv: "entry h a = Some kv" by auto
  then obtain n where n: "nodes h a = Some n" "val n = Some kv" by (auto simp: entry_Some)
  have tn: "time_nxt n = x" using x n by (simp add: fld_def)
  have atl: "a \<noteq> tl_node obj" using Cons.prems(2) by auto
  have ka: "key h a = fst kv" using kv by (simp add: key_def)
  have fresh: "fst kv \<notin> key h ` set asB" using Cons.prems(6) ka by auto
  define p where "p = brk h"
  from Add_ok [OF Cons.prems(5) fresh] obtain m1 h1 where
    ad: "Add hash kv m h = Some (p, m1, h1)" and inv1: "invl hash m1 h1 (asB @ [p])"
    and ep: "entry h1 p = Some kv" and eo: "\<forall>b\<in>set asB. entry h1 b = entry h b"
    and brk1: "brk h1 = Suc p"
    and fr1: "\<forall>z. z \<notin> fp m asB \<longrightarrow> z \<noteq> p \<longrightarrow> nodes h1 z = nodes h z"
    and m1: "this m1 = this m" "hd_node m1 = hd_node m" "tl_node m1 = tl_node m"
    unfolding p_def by blast
  have same: "nodes h1 z = nodes h z" if "z \<in> set (a # bs)" for z
  proof -
    have "z \<notin> fp m asB" using that Cons.prems(7) by auto
    moreover have "z \<noteq> p" using that Cons.prems(8) by (auto simp: p_def)
    ultimately show ?thesis using fr1 by simp
  qed
  have n1: "nodes h1 a = Some n" using same [of a] n by simp
  have unf: "copy_loop hash it obj m h = copy_loop hash x obj m1 h1"
    using atl by (subst copy_loop.simps) (simp add: it n ad n1 tn)
  have sb: "\<And>z. z \<in> set bs \<Longrightarrow> nodes h1 z = nodes h z" using same by simp
  have tp1: "tpath h1 x bs (tl_node obj)"
    using tp tpath_cong [of bs h1 h x "tl_node obj"] sb by (simp add: fld_def)
  have t1: "tl_node obj \<notin> set bs" using Cons.prems(2) by simp
  have eb: "\<And>z. z \<in> set bs \<Longrightarrow> entry h1 z = entry h z" using sb by (simp add: entry_def)
  have e1: "\<forall>z\<in>set bs. entry h1 z \<noteq> None" using Cons.prems(3) eb by simp
  have kb: "map (key h1) bs = map (key h) bs" using eb by (intro map_cong refl key_eqI)
  have kB: "map (key h1) asB = map (key h) asB" using eo by (intro map_cong refl key_eqI) simp
  have d1: "distinct (map (key h1) bs)" using Cons.prems(4) by (simp add: kb)
  have kp: "key h1 p = fst kv" using ep by (simp add: key_def)
  have "set (map (key h1) bs) \<inter> set (map (key h1) (asB @ [p])) = {}"
    unfolding map_append kb kB using Cons.prems(4,6) kp ka by auto
  then have k1: "key h1 ` set bs \<inter> key h1 ` set (asB @ [p]) = {}" by simp
  have fpe: "fp m1 (asB @ [p]) = insert p (fp m asB)" by (auto simp: fp_def m1)
  have f1: "set bs \<inter> fp m1 (asB @ [p]) = {}"
    using Cons.prems(7,8) unfolding fpe by (auto simp: p_def)
  have b1: "\<forall>z\<in>set bs. z < brk h1" using Cons.prems(8) brk1 by (auto simp: p_def)
  from Cons.IH [OF tp1 t1 e1 d1 inv1 k1 f1 b1] obtain m' h' asB' where
    r: "copy_loop hash x obj m1 h1 = Some (m', h')"
       "invl hash m' h' ((asB @ [p]) @ asB')"
       "ents h' ((asB @ [p]) @ asB') = ents h1 (asB @ [p]) @ ents h1 bs"
       "brk h1 \<le> brk h'" "set asB' \<subseteq> {brk h1..<brk h'}"
       "\<forall>z. z < brk h1 \<longrightarrow> z \<notin> fp m1 (asB @ [p]) \<longrightarrow> nodes h' z = nodes h1 z"
       "this m' = this m1" "hd_node m' = hd_node m1" "tl_node m' = tl_node m1"
    by blast
  have en: "ents h1 (asB @ [p]) @ ents h1 bs = ents h asB @ ents h (a # bs)"
    using eo eb ep kv by (simp add: ents_def)
  have sub: "set (p # asB') \<subseteq> {brk h..<brk h'}"
    using r(4,5) brk1 by (auto simp: p_def)
  have fr: "\<forall>z. z < brk h \<longrightarrow> z \<notin> fp m asB \<longrightarrow> nodes h' z = nodes h z"
  proof (intro allI impI)
    fix z assume z: "z < brk h" "z \<notin> fp m asB"
    then have zp: "z \<noteq> p" by (simp add: p_def)
    then have "z \<notin> fp m1 (asB @ [p])" using z(2) unfolding fpe by simp
    moreover have "z < brk h1" using z(1) brk1 by (simp add: p_def)
    ultimately have "nodes h' z = nodes h1 z" using r(6) by simp
    then show "nodes h' z = nodes h z" using fr1 z(2) zp by simp
  qed
  have le: "brk h \<le> brk h'" using r(4) brk1 by (simp add: p_def)
  show ?case
    unfolding unf
    using r(1,2,7,8,9) r(3) [unfolded en] sub fr le m1
    by (intro exI [of _ m'] exI [of _ h'] exI [of _ "p # asB'"]) simp
qed

lemma copy_ctor_ok:
  assumes inv: "invl hash obj h asA"
  shows "\<exists>m h' as'. copy_ctor hash self obj h = Some (m, h') \<and> invl hash m h' as' \<and>
           ents h' as' = ents h asA \<and> this m = self \<and> brk h \<le> brk h' \<and>
           fp m as' \<subseteq> {brk h..<brk h'} \<and> (\<forall>z. z < brk h \<longrightarrow> nodes h' z = nodes h z)"
proof -
  from inv have ol: "olist obj h asA" and cp: "caps (len obj)" and bkA: "bk hash obj h asA"
    by (simp_all add: invl_def)
  from ol have dl: "dll h (hd_node obj) asA (tl_node obj)"
    and dist: "distinct (hd_node obj # asA @ [tl_node obj])"
    and ents: "\<forall>a\<in>set asA. entry h a \<noteq> None" and dk: "distinct (map (key h) asA)"
    and lt: "\<forall>a\<in>set (hd_node obj # asA @ [tl_node obj]). a < brk h"
    by (simp_all add: olist_def)
  let ?b = "brk h"
  let ?m = "\<lparr>this = self, len = len obj, load = 0, hd_node = brk h, tl_node = Suc (brk h),
             buc = replicate (len obj) None\<rparr>"
  let ?h = "h\<lparr>brk := Suc (Suc (brk h)),
                nodes := (nodes h)(brk h \<mapsto> Node0\<lparr>time_nxt := Some (Suc (brk h))\<rparr>,
                  Suc (brk h) \<mapsto> Node0\<lparr>time_lst := Some (brk h)\<rparr>)\<rparr>"
  have old: "nodes ?h z = nodes h z" if "z < brk h" for z using that by simp
  from dll_tpath [OF dl] obtain it where it: "fld time_nxt h (hd_node obj) = Some it"
    "tpath h it asA (tl_node obj)" by blast
  then obtain nh where nh: "nodes h (hd_node obj) = Some nh" "time_nxt nh = it"
    by (auto simp: fld_def)
  have hdlt: "hd_node obj < brk h" using lt by simp
  have nh': "nodes ?h (hd_node obj) = Some nh" using old [OF hdlt] nh(1) by (simp only:)
  have c: "copy_ctor hash self obj h = copy_loop hash it obj ?m ?h"
    unfolding copy_ctor_def
    using hdlt nh
    by (simp add: new_Node_def wr_def Let_def fun_upd_twist)
  have alt: "\<And>z. z \<in> set asA \<Longrightarrow> z < brk h" using lt by simp
  have sA: "nodes ?h z = nodes h z" if "z \<in> set asA" for z
    using old [OF alt [OF that]] .
  have eA: "\<And>z. z \<in> set asA \<Longrightarrow> entry ?h z = entry h z" using sA by (simp add: entry_def)
  have tp: "tpath ?h it asA (tl_node obj)"
    using it(2) tpath_cong [of asA ?h h it "tl_node obj"] sA by (simp add: fld_def)
  have t: "tl_node obj \<notin> set asA" using dist by simp
  have e: "\<forall>a\<in>set asA. entry ?h a \<noteq> None" using ents eA by simp
  have km: "map (key ?h) asA = map (key h) asA" using eA by (intro map_cong refl key_eqI)
  have d: "distinct (map (key ?h) asA)" using dk by (simp add: km)
  have ol0: "olist ?m ?h []" by (simp add: olist_def fld_def)
  have "0 < len obj" using bkA by (simp add: bk_def)
  then have bk0: "bk hash ?m ?h []" by (simp add: bk_def)
  have inv0: "invl hash ?m ?h []"
    using ol0 bk0 cp by (simp add: invl_def entry_def Node0_def)
  have k0: "key ?h ` set asA \<inter> key ?h ` set [] = {}" by simp
  have f0: "set asA \<inter> fp ?m [] = {}"
  proof -
    have "\<And>z. z \<in> fp ?m [] \<Longrightarrow> \<not> z < brk h" by (auto simp: fp_def)
    then show ?thesis using alt by blast
  qed
  have b0: "\<forall>a\<in>set asA. a < brk ?h"
  proof
    fix a assume "a \<in> set asA"
    from alt [OF this] show "a < brk ?h" by simp
  qed
  from copy_loop_ok [OF tp t e d inv0 k0 f0 b0] obtain m' h' as' where
    r: "copy_loop hash it obj ?m ?h = Some (m', h')"
       "invl hash m' h' ([] @ as')" "ents h' ([] @ as') = ents ?h [] @ ents ?h asA"
       "brk ?h \<le> brk h'" "set as' \<subseteq> {brk ?h..<brk h'}"
       "\<forall>z. z < brk ?h \<longrightarrow> z \<notin> fp ?m [] \<longrightarrow> nodes h' z = nodes ?h z"
       "this m' = this ?m" "hd_node m' = hd_node ?m" "tl_node m' = tl_node ?m"
    by blast
  have en: "ents h' as' = ents h asA" using r(3) eA by (simp add: ents_def)
  have le: "brk h \<le> brk h'" using r(4) by simp
  have fpm: "fp m' as' \<subseteq> {brk h..<brk h'}"
    using r(4,5,8,9) by (auto simp: fp_def)
  have fr: "\<forall>z. z < brk h \<longrightarrow> nodes h' z = nodes h z"
  proof (intro allI impI)
    fix z assume z: "z < brk h"
    then have "z \<notin> fp ?m []" by (simp add: fp_def)
    moreover have "z < brk ?h" using z by simp
    ultimately have "nodes h' z = nodes ?h z" using r(6) by blast
    then show "nodes h' z = nodes h z" using old [OF z] by simp
  qed
  show ?thesis
    unfolding c using r(1,2,7) en le fpm fr
    by (intro exI [of _ m'] exI [of _ h'] exI [of _ as']) simp
qed

lemma empty_heap_brk: "brk empty_heap = 0"
  by (simp add: empty_heap_def)

lemma reachable_invl:
  fixes h :: "('k, 'v) heap"
  shows "reachable hash m h \<Longrightarrow> \<exists>as. invl hash m h as"
proof (induction rule: reachable.induct)
  case (reach_ctor self m h)
  from ctor_ok [of self "empty_heap :: ('k, 'v) heap" hash] obtain m1 h1 where
    "ctor self (empty_heap :: ('k, 'v) heap) = Some (m1, h1)" "invl hash m1 h1 []" by blast
  then have "invl hash m h []" using reach_ctor by simp
  then show ?case by blast
next
  case (reach_copy obj h self m h')
  then obtain asA where "invl hash obj h asA" by blast
  from copy_ctor_ok [OF this, of self] reach_copy(2) show ?case by auto
next
  case (reach_step m h m' h')
  then obtain as where "invl hash m h as" by blast
  from step_invl [OF this reach_step(2)] show ?case by blast
qed

lemma invl_frame:
  assumes inv: "invl hash m h as" and same: "\<forall>z\<in>fp m as. nodes h' z = nodes h z"
    and le: "brk h \<le> brk h'"
  shows "invl hash m h' as" "ents h' as = ents h as"
proof -
  from inv have ol: "olist m h as" and bk: "bk hash m h as" by (simp_all add: invl_def)
  have f: "\<And>g z. z \<in> fp m as \<Longrightarrow> fld g h' z = fld g h z" using same by (simp add: fld_def)
  have e: "\<And>z. z \<in> fp m as \<Longrightarrow> entry h' z = entry h z" using same by (simp add: entry_def)
  have sub: "set as \<subseteq> fp m as" "hd_node m \<in> fp m as" "tl_node m \<in> fp m as"
    by (auto simp: fp_def)
  have dc: "dll h' (hd_node m) as (tl_node m) = dll h (hd_node m) as (tl_node m)"
    by (rule dll_cong) (auto intro!: f simp: fp_def)
  have km: "map (key h') as = map (key h) as"
    using sub(1) by (intro map_cong refl key_eqI e) auto
  have en: "\<forall>a\<in>set as. entry h' a \<noteq> None"
  proof
    fix a assume a: "a \<in> set as"
    then have "entry h' a = entry h a" using e sub(1) by auto
    then show "entry h' a \<noteq> None" using ol a by (simp add: olist_def)
  qed
  have lt: "\<forall>a\<in>set (hd_node m # as @ [tl_node m]). a < brk h'"
  proof
    fix a assume "a \<in> set (hd_node m # as @ [tl_node m])"
    then have "a < brk h" using ol by (auto simp: olist_def)
    then show "a < brk h'" using le by simp
  qed
  have ol': "olist m h' as"
    unfolding olist_def dc km using ol en lt by (simp add: olist_def)
  have "bk hash m h' as = bk hash m h as"
    by (rule bk_cong) (use sub(1) in \<open>auto intro!: f e\<close>)
  then have bk': "bk hash m h' as" using bk by simp
  show "invl hash m h' as"
    using inv ol' bk' e [OF sub(2)] e [OF sub(3)] by (simp add: invl_def)
  show "ents h' as = ents h as"
    by (rule ents_cong) (use sub(1) e in auto)
qed

lemma invl_to_list: "invl hash m h as \<Longrightarrow> to_list m h = Some (ents h as)"
  by (simp add: invl_def to_list_ok)

lemma abs_mapD:
  assumes "abs_map hash m h es"
  shows "\<exists>as. invl hash m h as \<and> ents h as = es"
proof -
  from assms have r: "reachable hash m h" and t: "to_list m h = Some es"
    by (simp_all add: abs_map_def)
  from reachable_invl [OF r] obtain as where as: "invl hash m h as" by blast
  from invl_to_list [OF as] t have "ents h as = es" by simp
  then show ?thesis using as by blast
qed

lemma keys_of_ents: "invl hash m h as \<Longrightarrow> fst ` set (ents h as) = key h ` set as"
  by (simp add: ents_def key_def image_image)

lemma ents_mem:
  assumes "invl hash m h as" "kv \<in> set (ents h as)"
  shows "\<exists>a\<in>set as. entry h a = Some kv \<and> key h a = fst kv"
proof -
  from assms(2) obtain a where a: "a \<in> set as" "kv = the (entry h a)"
    by (auto simp: ents_def)
  moreover have "entry h a \<noteq> None" using assms(1) a(1) by (simp add: invl_def olist_def)
  ultimately have "entry h a = Some kv" by auto
  then show ?thesis using a(1) by (auto simp: key_def)
qed

lemma abs_ctor:
  fixes hash :: "'k \<Rightarrow> nat"
  shows "\<exists>m (h :: ('k, 'v) heap). ctor self empty_heap = Some (m, h) \<and> abs_map hash m h [] \<and>
           this m = self \<and> len m = LEN \<and> load m = 0"
proof -
  from ctor_ok [of self "empty_heap :: ('k, 'v) heap" hash] obtain m h where
    c: "ctor self (empty_heap :: ('k, 'v) heap) = Some (m, h)" "invl hash m h []"
      "this m = self" "len m = LEN" "load m = 0"
    by blast
  have "reachable hash m h" using c(1) by (rule reach_ctor)
  moreover have "to_list m h = Some []" using invl_to_list [OF c(2)] by (simp add: ents_def)
  ultimately show ?thesis using c by (auto simp: abs_map_def)
qed

lemma abs_insert_new:
  assumes ab: "abs_map hash m h es" and fresh: "k \<notin> fst ` set es"
  shows "\<exists>m' h'. insert_lhm hash (k, v) m h =
             Some ((\<lparr>source = Some (this m), at = Some (brk h)\<rparr>, True), m', h') \<and>
           abs_map hash m' h' (es @ [(k, v)]) \<and> this m' = this m \<and>
           load m' = Suc (load m) \<and>
           len m' = (if load m > len m then 2 * len m + 1 else len m)"
proof -
  from abs_mapD [OF ab] obtain as where as: "invl hash m h as" "ents h as = es" by blast
  have f: "fst (k, v) \<notin> key h ` set as" using fresh keys_of_ents [OF as(1)] as(2) by simp
  from insert_new [OF as(1) f] obtain m' h' where
    r: "insert_lhm hash (k, v) m h =
             Some ((\<lparr>source = Some (this m), at = Some (brk h)\<rparr>, True), m', h')"
       "invl hash m' h' (as @ [brk h])" "entry h' (brk h) = Some (k, v)"
       "\<forall>a\<in>set as. entry h' a = entry h a" "this m' = this m"
       "load m' = Suc (load m)" "len m' = (if load m > len m then 2 * len m + 1 else len m)"
    by blast
  have "step hash (m, h) (m', h')" using r(1) by (rule step_insert)
  then have re: "reachable hash m' h'" using ab by (auto simp: abs_map_def intro: reach_step)
  have "ents h' (as @ [brk h]) = es @ [(k, v)]"
    using r(3) ents_cong [of as h' h] r(4) as(2) by (simp add: ents_append) (simp add: ents_def)
  then have "to_list m' h' = Some (es @ [(k, v)])" using invl_to_list [OF r(2)] by simp
  then show ?thesis using re r by (auto simp: abs_map_def)
qed

lemma abs_insert_dup:
  assumes ab: "abs_map hash m h es" and mem: "(k, v0) \<in> set es"
  shows "\<exists>a. insert_lhm hash (k, v) m h =
             Some ((\<lparr>source = Some (this m), at = Some a\<rparr>, False), m, h) \<and>
           entry h a = Some (k, v0)"
proof -
  from abs_mapD [OF ab] obtain as where as: "invl hash m h as" "ents h as = es" by blast
  from ents_mem [OF as(1), of "(k, v0)"] mem as(2) obtain a where
    a: "a \<in> set as" "entry h a = Some (k, v0)" "key h a = k" by auto
  have "key h a = fst (k, v)" using a(3) by simp
  from insert_dup [OF as(1) a(1) this] a(2) show ?thesis by blast
qed

lemma ents_remove:
  assumes "invl hash m h (xs @ a # ys)"
  shows "filter (\<lambda>kv. fst kv \<noteq> key h a) (ents h (xs @ a # ys)) = ents h (xs @ ys)"
proof -
  from assms have d: "distinct (map (key h) (xs @ a # ys))" by (simp add: invl_def olist_def)
  have "key h a \<notin> key h ` set (xs @ ys)" using d by auto
  then have "\<And>z. z \<in> set (xs @ ys) \<Longrightarrow> key h z \<noteq> key h a" by (metis imageI)
  then have f: "filter (\<lambda>z. key h z \<noteq> key h a) (xs @ a # ys) = xs @ ys"
    by (auto simp: filter_id_conv)
  have "filter (\<lambda>kv. fst kv \<noteq> key h a) (ents h (xs @ a # ys)) =
        map (\<lambda>a. the (entry h a)) (filter (\<lambda>z. key h z \<noteq> key h a) (xs @ a # ys))"
    unfolding ents_def filter_map by (simp add: comp_def key_def)
  then show ?thesis unfolding f by (simp add: ents_def)
qed

lemma find_present:
  assumes "invl hash m h as" "a \<in> set as" "key h a = k"
  shows "find_lhm hash k m h = Some \<lparr>source = Some (this m), at = Some a\<rparr>"
  using Find_present [OF assms] by (simp add: find_lhm_def)

lemma find_absent:
  assumes "invl hash m h as" "k \<notin> key h ` set as"
  shows "find_lhm hash k m h = Some (end_lhm m)"
  using Find_absent [OF assms] by (simp add: find_lhm_def end_lhm_def)

lemma abs_erase_key:
  assumes ab: "abs_map hash m h es" and mem: "k \<in> fst ` set es"
  shows "\<exists>pos m' h'. find_lhm hash k m h = Some pos \<and> pos \<noteq> end_lhm m \<and>
           erase hash pos m h = Some (Inr (), m', h') \<and>
           abs_map hash m' h' (filter (\<lambda>kv. fst kv \<noteq> k) es) \<and> this m' = this m \<and>
           load m' = load m - 1 \<and>
           len m' = (if len m > LEN \<and> 4 * (load m - 1) < len m then len m div 2 else len m)"
proof -
  from abs_mapD [OF ab] obtain as where as: "invl hash m h as" "ents h as = es" by blast
  from mem keys_of_ents [OF as(1)] as(2) obtain a where a: "a \<in> set as" "key h a = k" by auto
  then obtain xs ys where sp: "as = xs @ a # ys" by (meson split_list)
  let ?pos = "\<lparr>source = Some (this m), at = Some a\<rparr>"
  have fi: "find_lhm hash k m h = Some ?pos" using as(1) a by (rule find_present)
  have ne: "?pos \<noteq> end_lhm m" using live_not_tl [OF as(1) a(1)] by (simp add: end_lhm_def)
  from erase_ok [OF as(1) [unfolded sp], of ?pos] obtain m' h' where
    r: "erase hash ?pos m h = Some (Inr (), m', h')" "invl hash m' h' (xs @ ys)"
       "\<forall>z\<in>set (xs @ ys). entry h' z = entry h z" "this m' = this m"
       "load m' = load m - 1"
       "len m' = (if len m > LEN \<and> 4 * (load m - 1) < len m then len m div 2 else len m)"
    by auto
  have "step hash (m, h) (m', h')" using r(1) by (rule step_erase)
  then have re: "reachable hash m' h'" using ab by (auto simp: abs_map_def intro: reach_step)
  have "ents h' (xs @ ys) = ents h (xs @ ys)" using r(3) by (rule ents_cong)
  also have "\<dots> = filter (\<lambda>kv. fst kv \<noteq> k) es"
    using ents_remove [OF as(1) [unfolded sp]] as(2) a(2) sp by simp
  finally have "to_list m' h' = Some (filter (\<lambda>kv. fst kv \<noteq> k) es)"
    using invl_to_list [OF r(2)] by simp
  then have "abs_map hash m' h' (filter (\<lambda>kv. fst kv \<noteq> k) es)"
    using re by (simp add: abs_map_def)
  then show ?thesis using fi ne r(1,4,5,6) by blast
qed

lemma abs_erase_absent:
  assumes ab: "abs_map hash m h es" and mem: "k \<notin> fst ` set es"
  shows "find_lhm hash k m h = Some (end_lhm m) \<and>
         erase hash (end_lhm m) m h = Some (Inl invalid_iterator, m, h)"
proof -
  from abs_mapD [OF ab] obtain as where as: "invl hash m h as" "ents h as = es" by blast
  have "k \<notin> key h ` set as" using mem keys_of_ents [OF as(1)] as(2) by simp
  from find_absent [OF as(1) this] show ?thesis by (simp add: erase_def end_lhm_def)
qed

lemma abs_size:
  assumes "abs_map hash m h es"
  shows "size_lhm m = length es" "LEN \<le> len m"
proof -
  from abs_mapD [OF assms] obtain as where as: "invl hash m h as" "ents h as = es" by blast
  show "size_lhm m = length es" using as by (auto simp: invl_def size_lhm_def ents_def)
  show "LEN \<le> len m" using as(1) caps_ge by (auto simp: invl_def LEN_def)
qed

lemma ref_get_entry: "ref_get p h = map_option snd (entry h p)"
  by (cases "nodes h p") (auto simp: ref_get_def entry_def split: option.splits bind_splits)

lemma abs_subscript_new:
  assumes ab: "abs_map hash m h es" and fresh: "k \<notin> fst ` set es"
  shows "\<exists>m' h'. subscript hash dflt k m h = Some (brk h, m', h') \<and>
           abs_map hash m' h' (es @ [(k, dflt)]) \<and> ref_get (brk h) h' = Some dflt \<and>
           this m' = this m \<and> load m' = Suc (load m) \<and>
           len m' = (if load m > len m then 2 * len m + 1 else len m)"
proof -
  from abs_mapD [OF ab] obtain as where as: "invl hash m h as" "ents h as = es" by blast
  have f: "k \<notin> key h ` set as" using fresh keys_of_ents [OF as(1)] as(2) by simp
  from subscript_new [OF as(1) f, of dflt] obtain m' h' where
    r: "subscript hash dflt k m h = Some (brk h, m', h')"
       "invl hash m' h' (as @ [brk h])" "entry h' (brk h) = Some (k, dflt)"
       "\<forall>a\<in>set as. entry h' a = entry h a" "this m' = this m"
       "load m' = Suc (load m)" "len m' = (if load m > len m then 2 * len m + 1 else len m)"
    by blast
  have "step hash (m, h) (m', h')" using r(1) by (rule step_subscript)
  then have re: "reachable hash m' h'" using ab by (auto simp: abs_map_def intro: reach_step)
  have "ents h' (as @ [brk h]) = es @ [(k, dflt)]"
    using r(3) ents_cong [of as h' h] r(4) as(2) by (simp add: ents_append) (simp add: ents_def)
  then have "to_list m' h' = Some (es @ [(k, dflt)])" using invl_to_list [OF r(2)] by simp
  moreover have "ref_get (brk h) h' = Some dflt" using r(3) by (simp add: ref_get_entry)
  ultimately show ?thesis using re r by (auto simp: abs_map_def)
qed

lemma ents_assign:
  assumes inv: "invl hash m h as" and a: "a \<in> set as"
    and ea: "entry h' a = Some (key h a, v)" and eo: "\<forall>z. z \<noteq> a \<longrightarrow> entry h' z = entry h z"
  shows "ents h' as = map (\<lambda>kv. if fst kv = key h a then (key h a, v) else kv) (ents h as)"
proof -
  from inv have d: "distinct (map (key h) as)" by (simp add: invl_def olist_def)
  then have inj: "inj_on (key h) (set as)" by (simp add: distinct_map)
  have "the (entry h' z) = (if fst (the (entry h z)) = key h a then (key h a, v) else the (entry h z))"
    if z: "z \<in> set as" for z
  proof (cases "z = a")
    case True
    then show ?thesis using ea by (simp add: key_def)
  next
    case False
    then have "key h z \<noteq> key h a" using inj z a by (meson inj_onD)
    then show ?thesis using eo False by (simp add: key_def)
  qed
  then show ?thesis by (simp add: ents_def)
qed

lemma abs_assign:
  assumes ab: "abs_map hash m h es" and mem: "(k, v0) \<in> set es"
  shows "\<exists>p. at_lhm hash k m h = Some (Inr p, m, h) \<and> at_const hash k m h = Some (Inr p, m, h) \<and>
           subscript hash dflt k m h = Some (p, m, h) \<and> ref_get p h = Some v0 \<and>
           (\<forall>v. \<exists>h'. ref_set p v h = Some h' \<and>
              abs_map hash m h' (map (\<lambda>kv. if fst kv = k then (k, v) else kv) es) \<and>
              ref_get p h' = Some v \<and> at_lhm hash k m h' = Some (Inr p, m, h'))"
proof -
  from abs_mapD [OF ab] obtain as where as: "invl hash m h as" "ents h as = es" by blast
  from ents_mem [OF as(1), of "(k, v0)"] mem as(2) obtain a where
    a: "a \<in> set as" "entry h a = Some (k, v0)" "key h a = k" by auto
  have at: "at_lhm hash k m h = Some (Inr a, m, h)" "at_const hash k m h = Some (Inr a, m, h)"
    using at_present [OF as(1) a(1,3)] by simp_all
  have su: "subscript hash dflt k m h = Some (a, m, h)" using as(1) a(1,3) by (rule subscript_old)
  have rg: "ref_get a h = Some v0" using a(2) by (simp add: ref_get_entry)
  have "\<exists>h'. ref_set a v h = Some h' \<and>
              abs_map hash m h' (map (\<lambda>kv. if fst kv = k then (k, v) else kv) es) \<and>
              ref_get a h' = Some v \<and> at_lhm hash k m h' = Some (Inr a, m, h')" for v
  proof -
    from ref_set_ok [OF as(1) a(1), of v] obtain h' where
      r: "ref_set a v h = Some h'" "invl hash m h' as" "entry h' a = Some (key h a, v)"
         "\<forall>z. z \<noteq> a \<longrightarrow> nodes h' z = nodes h z"
      by blast
    have eo: "\<forall>z. z \<noteq> a \<longrightarrow> entry h' z = entry h z" using r(4) by (simp add: entry_def)
    have "step hash (m, h) (m, h')" using at(1) r(1) by (rule step_assign)
    then have re: "reachable hash m h'" using ab by (auto simp: abs_map_def intro: reach_step)
    have "ents h' as = map (\<lambda>kv. if fst kv = k then (k, v) else kv) es"
      using ents_assign [OF as(1) a(1) r(3) eo] a(3) as(2) by simp
    then have "to_list m h' = Some (map (\<lambda>kv. if fst kv = k then (k, v) else kv) es)"
      using invl_to_list [OF r(2)] by simp
    moreover have "ref_get a h' = Some v" using r(3) by (simp add: ref_get_entry)
    moreover have "key h' a = k" using r(3) a(3) by (simp add: key_def)
    then have "at_lhm hash k m h' = Some (Inr a, m, h')" using at_present(1) [OF r(2) a(1)] by simp
    ultimately show ?thesis using r(1) re by (simp add: abs_map_def)
  qed
  then show ?thesis using at su rg by blast
qed

lemma abs_at_absent:
  assumes ab: "abs_map hash m h es" and fresh: "k \<notin> fst ` set es"
  shows "at_lhm hash k m h = Some (Inl index_out_of_bound, m, h)"
    "at_const hash k m h = Some (Inl index_out_of_bound, m, h)"
proof -
  from abs_mapD [OF ab] obtain as where as: "invl hash m h as" "ents h as = es" by blast
  have f: "k \<notin> key h ` set as" using fresh keys_of_ents [OF as(1)] as(2) by simp
  show "at_lhm hash k m h = Some (Inl index_out_of_bound, m, h)"
    "at_const hash k m h = Some (Inl index_out_of_bound, m, h)"
    using at_absent [OF as(1) f] by simp_all
qed

lemma abs_mapI: "reachable hash m h \<Longrightarrow> to_list m h = Some es \<Longrightarrow> abs_map hash m h es"
  by (simp add: abs_map_def)

lemma example_one:
  "\<exists>m (h :: (nat, nat) heap). abs_map (\<lambda>k. k) m h [(1, 10)]"
proof -
  from abs_ctor [of 0 "\<lambda>k::nat. k"] obtain m0 and h0 :: "(nat, nat) heap" where
    "abs_map (\<lambda>k. k) m0 h0 []" by blast
  from abs_insert_new [OF this, of 1 10] show ?thesis by auto
qed

lemma odd_not_power:
  assumes "0 < (n::nat)"
  shows "2 * n + 1 \<noteq> 2 ^ j"
proof
  assume e: "2 * n + 1 = 2 ^ j"
  show False
  proof (cases j)
    case 0
    then show False using e assms by simp
  next
    case (Suc i)
    then have "even ((2::nat) ^ j)" by simp
    then have "even (2 * n + 1)" unfolding e .
    then show False by simp
  qed
qed

lemma iterator_deref_entry: "iterator_deref h \<lparr>source = s, at = Some a\<rparr> = entry h a"
  by (simp add: iterator_deref_def entry_def)

subsection \<open>Inserting a key that is present\<close>

text \<open>
  C3: when the key of the value is already in the map, \<open>insert\<close> returns an iterator at the
  existing entry together with \<open>False\<close>, and the container and the store it returns are
  the ones it was called with, so the stored value, the iteration order, the size and
  the capacity are unchanged.
\<close>

theorem insert_existing_key_noop:
  assumes "reachable hash m h" "to_list m h = Some es" "(k, v0) \<in> set es"
  shows "\<exists>a. insert_lhm hash (k, v) m h =
             Some ((\<lparr>source = Some (this m), at = Some a\<rparr>, False), m, h) \<and>
           iterator_deref h \<lparr>source = Some (this m), at = Some a\<rparr> = Some (k, v0)"
  using abs_insert_dup [OF abs_mapI [OF assms(1,2)] assms(3), of v]
  by (simp add: iterator_deref_entry)

theorem insert_existing_key_noop_witness:
  "\<exists>m (h :: (nat, nat) heap) a. reachable (\<lambda>k. k) m h \<and> to_list m h = Some [(1, 10)] \<and>
     (1, 10) \<in> set [(1 :: nat, 10 :: nat)] \<and>
     insert_lhm (\<lambda>k. k) (1, 20) m h =
       Some ((\<lparr>source = Some (this m), at = Some a\<rparr>, False), m, h) \<and>
     iterator_deref h \<lparr>source = Some (this m), at = Some a\<rparr> = Some (1, 10)"
proof -
  from example_one obtain m and h :: "(nat, nat) heap" where
    s: "reachable (\<lambda>k. k) m h" "to_list m h = Some [(1, 10)]"
    by (auto simp: abs_map_def)
  have mem: "(1, 10) \<in> set [(1 :: nat, 10 :: nat)]" by simp
  from insert_existing_key_noop [OF s mem, of 20] show ?thesis using s mem by blast
qed

subsection \<open>Growth\<close>

text \<open>
  C4: an insertion of a new key, by \<open>insert\<close> or by \<open>operator[]\<close>, grows the bucket array
  exactly when the count read before its increment is greater than the capacity; the new
  capacity is then \<open>(capacity << 1) | 1\<close>, which is odd and not a power of two.
\<close>

theorem growth_on_new_key:
  assumes "reachable hash m h" "to_list m h = Some es" "k \<notin> fst ` set es"
  shows "(\<exists>it m' h'. insert_lhm hash (k, v) m h = Some ((it, True), m', h') \<and>
            load m' = load m + 1 \<and>
            len m' = (if load m > len m then or (push_bit 1 (len m)) 1 else len m) \<and>
            (load m > len m \<longrightarrow> odd (len m') \<and> (\<forall>j. len m' \<noteq> 2 ^ j))) \<and>
         (\<exists>p m' h'. subscript hash dflt k m h = Some (p, m', h') \<and>
            load m' = load m + 1 \<and>
            len m' = (if load m > len m then or (push_bit 1 (len m)) 1 else len m) \<and>
            (load m > len m \<longrightarrow> odd (len m') \<and> (\<forall>j. len m' \<noteq> 2 ^ j)))"
proof -
  have ab: "abs_map hash m h es" using assms(1,2) by (rule abs_mapI)
  have pos: "0 < len m" using abs_size(2) [OF ab] by (simp add: LEN_def)
  have g: "or (push_bit 1 (len m)) 1 = 2 * len m + 1" using or_push_bit_1 [of "len m"] by simp
  have np: "\<forall>j. 2 * len m + 1 \<noteq> 2 ^ j" using odd_not_power [OF pos] by simp
  from abs_insert_new [OF ab assms(3), of v] obtain m1 h1 where
    i: "insert_lhm hash (k, v) m h =
          Some ((\<lparr>source = Some (this m), at = Some (brk h)\<rparr>, True), m1, h1)"
       "load m1 = Suc (load m)" "len m1 = (if load m > len m then 2 * len m + 1 else len m)"
    by blast
  from abs_subscript_new [OF ab assms(3), of dflt] obtain m2 h2 where
    s: "subscript hash dflt k m h = Some (brk h, m2, h2)"
       "load m2 = Suc (load m)" "len m2 = (if load m > len m then 2 * len m + 1 else len m)"
    by blast
  have "\<exists>it m' h'. insert_lhm hash (k, v) m h = Some ((it, True), m', h') \<and>
            load m' = load m + 1 \<and>
            len m' = (if load m > len m then or (push_bit 1 (len m)) 1 else len m) \<and>
            (load m > len m \<longrightarrow> odd (len m') \<and> (\<forall>j. len m' \<noteq> 2 ^ j))"
    unfolding g using i np by (intro exI [of _ "\<lparr>source = Some (this m), at = Some (brk h)\<rparr>"]
        exI [of _ m1] exI [of _ h1]) simp
  moreover have "\<exists>p m' h'. subscript hash dflt k m h = Some (p, m', h') \<and>
            load m' = load m + 1 \<and>
            len m' = (if load m > len m then or (push_bit 1 (len m)) 1 else len m) \<and>
            (load m > len m \<longrightarrow> odd (len m') \<and> (\<forall>j. len m' \<noteq> 2 ^ j))"
    unfolding g using s np by (intro exI [of _ "brk h"] exI [of _ m2] exI [of _ h2]) simp
  ultimately show ?thesis by blast
qed

subsection \<open>Shrinking and the capacity floor\<close>

text \<open>
  C5: after a removal by \<open>erase\<close> the capacity is halved (\<open>capacity >> 1\<close>) exactly when
  four times the decremented count is less than the capacity and the capacity is greater
  than the floor \<open>LEN = 13\<close>; and the capacity of every reachable container is at least
  the floor.
\<close>

theorem shrink_on_erase_and_floor:
  assumes "reachable hash m h"
  shows "LEN = 13 \<and> LEN \<le> len m \<and>
         (\<forall>pos m' h'. erase hash pos m h = Some (Inr (), m', h') \<longrightarrow>
            load m' = load m - 1 \<and>
            len m' = (if 4 * load m' < len m \<and> LEN < len m then drop_bit 1 (len m) else len m) \<and>
            LEN \<le> len m')"
proof -
  from reachable_invl [OF assms] obtain as where inv: "invl hash m h as" by blast
  have floor: "LEN \<le> len m" using inv caps_ge by (auto simp: invl_def LEN_def)
  have "load m' = load m - 1 \<and>
        len m' = (if 4 * load m' < len m \<and> LEN < len m then drop_bit 1 (len m) else len m) \<and>
        LEN \<le> len m'"
    if e: "erase hash pos m h = Some (Inr (), m', h')" for pos m' h'
  proof -
    from erase_cases [OF inv e] obtain xs a ys where
      s: "as = xs @ a # ys" "at pos = Some a" "source pos = Some (this m)"
      by auto
    from erase_ok [OF inv [unfolded s(1)] s(2,3)] e obtain
      r: "invl hash m' h' (xs @ ys)" "load m' = load m - 1"
         "len m' = (if len m > LEN \<and> 4 * (load m - 1) < len m then len m div 2 else len m)"
      by auto
    have "LEN \<le> len m'" using r(1) caps_ge by (auto simp: invl_def LEN_def)
    moreover have "len m' = (if 4 * load m' < len m \<and> LEN < len m then drop_bit 1 (len m) else len m)"
      using r(2,3) by (auto simp: drop_bit_eq_div)
    ultimately show ?thesis using r(2) by simp
  qed
  then have "\<forall>pos m' h'. erase hash pos m h = Some (Inr (), m', h') \<longrightarrow>
            load m' = load m - 1 \<and>
            len m' = (if 4 * load m' < len m \<and> LEN < len m then drop_bit 1 (len m) else len m) \<and>
            LEN \<le> len m'"
    by blast
  moreover have "LEN = 13" by (simp add: LEN_def)
  ultimately show ?thesis using floor by blast
qed

subsection \<open>Subscript on an absent key\<close>

text \<open>
  C6: on a key that is absent, the non-const \<open>operator[]\<close> returns (it does not throw and
  is defined), the map then iterates as before followed by the new key with the
  default value, the reference it returns reads the default value, and after an
  assignment through the reference \<open>at\<close> on the same key returns a reference that reads the
  assigned value.
\<close>

theorem subscript_absent_inserts_default:
  assumes "reachable hash m h" "to_list m h = Some es" "k \<notin> fst ` set es"
  shows "\<exists>p m' h'. subscript hash dflt k m h = Some (p, m', h') \<and>
           to_list m' h' = Some (es @ [(k, dflt)]) \<and> ref_get p h' = Some dflt \<and>
           (\<forall>v. \<exists>h2 r. ref_set p v h' = Some h2 \<and>
              at_lhm hash k m' h2 = Some (Inr r, m', h2) \<and> ref_get r h2 = Some v \<and>
              to_list m' h2 = Some (es @ [(k, v)]))"
proof -
  have ab: "abs_map hash m h es" using assms(1,2) by (rule abs_mapI)
  from abs_subscript_new [OF ab assms(3), of dflt] obtain m' h' where
    s: "subscript hash dflt k m h = Some (brk h, m', h')"
       "abs_map hash m' h' (es @ [(k, dflt)])" "ref_get (brk h) h' = Some dflt"
    by blast
  have mem: "(k, dflt) \<in> set (es @ [(k, dflt)])" by simp
  from abs_assign [OF s(2) mem, of dflt] obtain p where
    p: "subscript hash dflt k m' h' = Some (p, m', h')"
       "at_lhm hash k m' h' = Some (Inr p, m', h')"
       "\<forall>v. \<exists>h2. ref_set p v h' = Some h2 \<and>
              abs_map hash m' h2 (map (\<lambda>kv. if fst kv = k then (k, v) else kv) (es @ [(k, dflt)])) \<and>
              ref_get p h2 = Some v \<and> at_lhm hash k m' h2 = Some (Inr p, m', h2)"
    by blast
  from abs_mapD [OF s(2)] obtain as where as: "invl hash m' h' as" by blast
  have pb: "p = brk h"
  proof -
    from abs_mapD [OF ab] obtain as0 where as0: "invl hash m h as0" "ents h as0 = es" by blast
    have f: "k \<notin> key h ` set as0" using assms(3) keys_of_ents [OF as0(1)] as0(2) by simp
    from subscript_new [OF as0(1) f, of dflt] s(1) have
      i: "invl hash m' h' (as0 @ [brk h])" "entry h' (brk h) = Some (k, dflt)" by auto
    have "brk h \<in> set (as0 @ [brk h])" "key h' (brk h) = k" using i(2) by (simp_all add: key_def)
    from at_present(1) [OF i(1) this] p(2) show ?thesis by simp
  qed
  have m: "map (\<lambda>kv. if fst kv = k then (k, v) else kv) (es @ [(k, dflt)]) = es @ [(k, v)]" for v
  proof -
    have "map (\<lambda>kv. if fst kv = k then (k, v) else kv) es = es"
      using assms(3) by (intro map_idI) auto
    then show ?thesis by simp
  qed
  have "\<exists>h2 r. ref_set (brk h) v h' = Some h2 \<and>
              at_lhm hash k m' h2 = Some (Inr r, m', h2) \<and> ref_get r h2 = Some v \<and>
              to_list m' h2 = Some (es @ [(k, v)])" for v
  proof -
    from p(3) obtain h2 where
      "ref_set p v h' = Some h2"
      "abs_map hash m' h2 (map (\<lambda>kv. if fst kv = k then (k, v) else kv) (es @ [(k, dflt)]))"
      "ref_get p h2 = Some v" "at_lhm hash k m' h2 = Some (Inr p, m', h2)"
      by blast
    then show ?thesis unfolding m pb by (auto simp: abs_map_def)
  qed
  then show ?thesis using s by (auto simp: abs_map_def)
qed

theorem subscript_absent_inserts_default_witness:
  "\<exists>m (h :: (nat, nat) heap) p m' h' h2 r. reachable (\<lambda>k. k) m h \<and>
     to_list m h = Some [(1, 10)] \<and> 2 \<notin> fst ` set [(1 :: nat, 10 :: nat)] \<and>
     subscript (\<lambda>k. k) 0 2 m h = Some (p, m', h') \<and>
     to_list m' h' = Some [(1, 10), (2, 0)] \<and> ref_set p 7 h' = Some h2 \<and>
     at_lhm (\<lambda>k. k) 2 m' h2 = Some (Inr r, m', h2) \<and> ref_get r h2 = Some 7"
proof -
  from example_one obtain m and h :: "(nat, nat) heap" where
    s: "reachable (\<lambda>k. k) m h" "to_list m h = Some [(1, 10)]"
    by (auto simp: abs_map_def)
  have fresh: "2 \<notin> fst ` set [(1 :: nat, 10 :: nat)]" by simp
  from subscript_absent_inserts_default [OF s fresh, of 0] obtain p m' h' where
    r: "subscript (\<lambda>k. k) 0 2 m h = Some (p, m', h')"
       "to_list m' h' = Some ([(1, 10)] @ [(2, 0)])"
       "\<forall>v. \<exists>h2 r. ref_set p v h' = Some h2 \<and>
              at_lhm (\<lambda>k. k) 2 m' h2 = Some (Inr r, m', h2) \<and> ref_get r h2 = Some v \<and>
              to_list m' h2 = Some ([(1, 10)] @ [(2, v)])"
    by blast
  from r(3) obtain h2 r where
    "ref_set p 7 h' = Some h2" "at_lhm (\<lambda>k. k) 2 m' h2 = Some (Inr r, m', h2)"
    "ref_get r h2 = Some 7"
    by blast
  then show ?thesis using s fresh r(1,2) by (intro exI [of _ m] exI [of _ h]) auto
qed

subsection \<open>Subscript of a const container\<close>

text \<open>
  C10: \<open>operator[]\<close> of a const container is \<open>at\<close>; on an absent key it throws
  \<open>index_out_of_bound\<close>, and the container and the store are the ones of before the call,
  so nothing is inserted.
\<close>

theorem subscript_const_absent:
  assumes "reachable hash m h" "to_list m h = Some es" "k \<notin> fst ` set es"
  shows "subscript_const hash k m h = at_const hash k m h \<and>
         subscript_const hash k m h = Some (Inl index_out_of_bound, m, h)"
  using abs_at_absent(2) [OF abs_mapI [OF assms(1,2)] assms(3)]
  by (simp add: subscript_const_def)

theorem subscript_const_absent_witness:
  "\<exists>m (h :: (nat, nat) heap). reachable (\<lambda>k. k) m h \<and> to_list m h = Some [(1, 10)] \<and>
     2 \<notin> fst ` set [(1 :: nat, 10 :: nat)] \<and>
     subscript_const (\<lambda>k. k) 2 m h = Some (Inl index_out_of_bound, m, h)"
proof -
  from example_one obtain m and h :: "(nat, nat) heap" where
    s: "reachable (\<lambda>k. k) m h" "to_list m h = Some [(1, 10)]"
    by (auto simp: abs_map_def)
  have fresh: "2 \<notin> fst ` set [(1 :: nat, 10 :: nat)]" by simp
  from subscript_const_absent [OF s fresh] show ?thesis using s fresh by blast
qed

subsection \<open>Erasing through an iterator\<close>

lemma erase_else_not_Inl:
  "\<not> (at pos = Some (tl_node m) \<or> source pos \<noteq> Some (this m)) \<Longrightarrow>
   erase hash pos m h \<noteq> Some (Inl e, m', h')"
  unfolding erase_def
  by (auto simp: bind_eq_Some_conv Let_def split: if_splits prod.splits)

lemma end_lhm_iff:
  "(pos = end_lhm m \<or> source pos \<noteq> Some (this m)) \<longleftrightarrow>
   (at pos = Some (tl_node m) \<or> source pos \<noteq> Some (this m))"
  by (cases pos) (auto simp: end_lhm_def)

text \<open>
  C7: \<open>erase\<close> throws exactly when \<open>pos\<close> is the end iterator of this container or
  carries another container as its source; the only exception is \<open>invalid_iterator\<close>, and
  the container and the store are then the ones of before the call.  On the iterator
  that \<open>find\<close> returns for a key of a reachable container, \<open>erase\<close> does not throw.
\<close>

theorem erase_throws_iff:
  "((\<exists>e m' h'. erase hash pos m h = Some (Inl e, m', h')) \<longleftrightarrow>
      (pos = end_lhm m \<or> source pos \<noteq> Some (this m))) \<and>
   (\<forall>e m' h'. erase hash pos m h = Some (Inl e, m', h') \<longrightarrow>
      e = invalid_iterator \<and> m' = m \<and> h' = h) \<and>
   (\<forall>es k. reachable hash m h \<and> to_list m h = Some es \<and> k \<in> fst ` set es \<longrightarrow>
      (\<exists>it m' h'. find_lhm hash k m h = Some it \<and> it \<noteq> end_lhm m \<and>
         erase hash it m h = Some (Inr (), m', h')))"
proof -
  have valid: "\<forall>es k. reachable hash m h \<and> to_list m h = Some es \<and> k \<in> fst ` set es \<longrightarrow>
      (\<exists>it m' h'. find_lhm hash k m h = Some it \<and> it \<noteq> end_lhm m \<and>
         erase hash it m h = Some (Inr (), m', h'))"
  proof (intro allI impI)
    fix es k
    assume a: "reachable hash m h \<and> to_list m h = Some es \<and> k \<in> fst ` set es"
    then have "abs_map hash m h es" by (simp add: abs_map_def)
    from abs_erase_key [OF this, of k] a
    show "\<exists>it m' h'. find_lhm hash k m h = Some it \<and> it \<noteq> end_lhm m \<and>
         erase hash it m h = Some (Inr (), m', h')"
      by blast
  qed
  show ?thesis
  proof (cases "at pos = Some (tl_node m) \<or> source pos \<noteq> Some (this m)")
    case True
    then have "erase hash pos m h = Some (Inl invalid_iterator, m, h)"
      by (simp add: erase_def)
    then show ?thesis using True end_lhm_iff [of pos m] valid by simp
  next
    case False
    then have "\<And>e m' h'. erase hash pos m h \<noteq> Some (Inl e, m', h')"
      by (rule erase_else_not_Inl)
    then show ?thesis using False end_lhm_iff [of pos m] valid by simp
  qed
qed

theorem erase_throws_iff_witness:
  "\<exists>m (h :: (nat, nat) heap) it m' h'. reachable (\<lambda>k. k) m h \<and>
     to_list m h = Some [(1, 10)] \<and> 1 \<in> fst ` set [(1 :: nat, 10 :: nat)] \<and>
     erase (\<lambda>k. k) (end_lhm m) m h = Some (Inl invalid_iterator, m, h) \<and>
     find_lhm (\<lambda>k. k) 1 m h = Some it \<and> erase (\<lambda>k. k) it m h = Some (Inr (), m', h')"
proof -
  from example_one obtain m and h :: "(nat, nat) heap" where
    s: "reachable (\<lambda>k. k) m h" "to_list m h = Some [(1, 10)]"
    by (auto simp: abs_map_def)
  have mem: "1 \<in> fst ` set [(1 :: nat, 10 :: nat)]" by simp
  note t = erase_throws_iff [of "\<lambda>k. k" "end_lhm m" m h]
  from t obtain e m1 h1 where e: "erase (\<lambda>k. k) (end_lhm m) m h = Some (Inl e, m1, h1)"
    by blast
  with t have "e = invalid_iterator" "m1 = m" "h1 = h" by blast+
  with e have thr: "erase (\<lambda>k. k) (end_lhm m) m h = Some (Inl invalid_iterator, m, h)" by simp
  from t s mem obtain it m' h' where
    "find_lhm (\<lambda>k. k) 1 m h = Some it" "erase (\<lambda>k. k) it m h = Some (Inr (), m', h')"
    by blast
  then show ?thesis using s mem thr by blast
qed

lemma abs_subscript_assign_new:
  assumes ab: "abs_map hash m h es" and fresh: "k \<notin> fst ` set es"
  shows "\<exists>m' h' h2. subscript hash dflt k m h = Some (brk h, m', h') \<and>
           ref_set (brk h) v h' = Some h2 \<and> abs_map hash m' h2 (es @ [(k, v)])"
proof -
  from abs_mapD [OF ab] obtain as where as: "invl hash m h as" "ents h as = es" by blast
  have f: "k \<notin> key h ` set as" using fresh keys_of_ents [OF as(1)] as(2) by simp
  from subscript_new [OF as(1) f, of dflt] obtain m' h' where
    r: "subscript hash dflt k m h = Some (brk h, m', h')"
       "invl hash m' h' (as @ [brk h])" "entry h' (brk h) = Some (k, dflt)"
       "\<forall>a\<in>set as. entry h' a = entry h a"
    by blast
  have s1: "step hash (m, h) (m', h')" using r(1) by (rule step_subscript)
  have re1: "reachable hash m' h'" using ab s1 by (auto simp: abs_map_def intro: reach_step)
  have pin: "brk h \<in> set (as @ [brk h])" by simp
  have kp: "key h' (brk h) = k" using r(3) by (simp add: key_def)
  from ref_set_ok [OF r(2) pin, of v] obtain h2 where
    w: "ref_set (brk h) v h' = Some h2" "invl hash m' h2 (as @ [brk h])"
       "entry h2 (brk h) = Some (key h' (brk h), v)"
       "\<forall>z. z \<noteq> brk h \<longrightarrow> nodes h2 z = nodes h' z"
    by blast
  have at: "at_lhm hash k m' h' = Some (Inr (brk h), m', h')"
    using at_present(1) [OF r(2) pin kp] .
  have "step hash (m', h') (m', h2)" using at w(1) by (rule step_assign)
  then have re2: "reachable hash m' h2" using re1 by (rule reach_step [rotated])
  have bn: "brk h \<notin> set as" using r(2) by (auto simp: invl_def olist_def)
  have "\<forall>a\<in>set as. entry h2 a = entry h a"
  proof
    fix a assume a: "a \<in> set as"
    then have "a \<noteq> brk h" using bn by auto
    then have "entry h2 a = entry h' a" using w(4) by (simp add: entry_def)
    then show "entry h2 a = entry h a" using r(4) a by simp
  qed
  then have "ents h2 as = es" using ents_cong [of as h2 h] as(2) by simp
  then have "ents h2 (as @ [brk h]) = es @ [(k, v)]"
    using w(3) kp by (simp add: ents_append) (simp add: ents_def)
  then have "to_list m' h2 = Some (es @ [(k, v)])" using invl_to_list [OF w(2)] by simp
  then show ?thesis using r(1) w(1) re2 by (auto simp: abs_map_def)
qed

lemma run_refines:
  "abs_map hash m h es \<Longrightarrow>
   \<exists>m' h'. run hash dflt cs m h = Some (m', h') \<and> abs_map hash m' h' (spec_run cs es)"
proof (induction cs arbitrary: m h es)
  case Nil
  then show ?case by simp
next
  case (Cons c cs)
  show ?case
  proof (cases c)
    case (Insert k v)
    show ?thesis
    proof (cases "k \<in> fst ` set es")
      case True
      then obtain v0 where "(k, v0) \<in> set es" by auto
      from abs_insert_dup [OF Cons.prems this, of v] obtain a where
        "insert_lhm hash (k, v) m h = Some ((\<lparr>source = Some (this m), at = Some a\<rparr>, False), m, h)"
        by blast
      then show ?thesis using Cons.IH [OF Cons.prems] Insert True by simp
    next
      case False
      from abs_insert_new [OF Cons.prems False, of v] obtain m1 h1 where
        r: "insert_lhm hash (k, v) m h =
             Some ((\<lparr>source = Some (this m), at = Some (brk h)\<rparr>, True), m1, h1)"
           "abs_map hash m1 h1 (es @ [(k, v)])"
        by blast
      from Cons.IH [OF r(2)] show ?thesis using r(1) Insert False by simp
    qed
  next
    case (Erase k)
    show ?thesis
    proof (cases "k \<in> fst ` set es")
      case True
      from abs_erase_key [OF Cons.prems True] obtain pos m1 h1 where
        r: "find_lhm hash k m h = Some pos" "erase hash pos m h = Some (Inr (), m1, h1)"
           "abs_map hash m1 h1 (filter (\<lambda>kv. fst kv \<noteq> k) es)"
        by blast
      from Cons.IH [OF r(3)] show ?thesis using r(1,2) Erase by simp
    next
      case False
      from abs_erase_absent [OF Cons.prems False] have
        r: "find_lhm hash k m h = Some (end_lhm m)"
           "erase hash (end_lhm m) m h = Some (Inl invalid_iterator, m, h)"
        by simp_all
      have "filter (\<lambda>kv. fst kv \<noteq> k) es = es" using False by (auto simp: filter_id_conv)
      then show ?thesis using Cons.IH [OF Cons.prems] r Erase by simp
    qed
  next
    case (Assign k v)
    show ?thesis
    proof (cases "k \<in> fst ` set es")
      case True
      then obtain v0 where "(k, v0) \<in> set es" by auto
      from abs_assign [OF Cons.prems this, of dflt] obtain p where
        p: "subscript hash dflt k m h = Some (p, m, h)"
           "\<forall>v. \<exists>h'. ref_set p v h = Some h' \<and>
              abs_map hash m h' (map (\<lambda>kv. if fst kv = k then (k, v) else kv) es) \<and>
              ref_get p h' = Some v \<and> at_lhm hash k m h' = Some (Inr p, m, h')"
        by blast
      from p(2) obtain h1 where
        r: "ref_set p v h = Some h1"
           "abs_map hash m h1 (map (\<lambda>kv. if fst kv = k then (k, v) else kv) es)"
        by blast
      from Cons.IH [OF r(2)] show ?thesis using p(1) r(1) Assign True by simp
    next
      case False
      from abs_subscript_assign_new [OF Cons.prems False, of dflt v] obtain m1 h1 h2 where
        r: "subscript hash dflt k m h = Some (brk h, m1, h1)" "ref_set (brk h) v h1 = Some h2"
           "abs_map hash m1 h2 (es @ [(k, v)])"
        by blast
      from Cons.IH [OF r(3)] show ?thesis using r(1,2) Assign False by simp
    qed
  qed
qed

lemma spec_run_keys_subset:
  "fst ` set (spec_run cs es) \<subseteq> fst ` set es \<union> set (inserted cs)"
proof (induction cs arbitrary: es)
  case Nil
  then show ?case by simp
next
  case (Cons c cs)
  show ?case
  proof (cases c)
    case (Insert k v)
    then show ?thesis using Cons [of "if k \<in> fst ` set es then es else es @ [(k, v)]"]
      by (auto split: if_splits)
  next
    case (Erase k)
    then show ?thesis using Cons [of "filter (\<lambda>kv. fst kv \<noteq> k) es"] by auto
  next
    case (Assign k v)
    have "fst ` set (map (\<lambda>kv. if fst kv = k then (k, v) else kv) es) \<subseteq> fst ` set es"
      by (auto simp: image_iff split: if_splits) force
    then show ?thesis
      using Assign Cons [of "if k \<in> fst ` set es
          then map (\<lambda>kv. if fst kv = k then (k, v) else kv) es else es @ [(k, v)]"]
      by (auto split: if_splits)
  qed
qed

lemma spec_run_order:
  "distinct (map fst es @ inserted cs) \<Longrightarrow>
   map fst (spec_run cs es) =
     filter (\<lambda>k. k \<in> fst ` set (spec_run cs es)) (map fst es @ inserted cs)"
proof (induction cs arbitrary: es)
  case Nil
  have "filter (\<lambda>k. k \<in> fst ` set es) (map fst es) = map fst es"
    by (simp add: filter_id_conv)
  then show ?case by simp
next
  case (Cons c cs)
  show ?case
  proof (cases c)
    case (Insert k v)
    then have nk: "k \<notin> fst ` set es" using Cons.prems by auto
    have d: "distinct (map fst (es @ [(k, v)]) @ inserted cs)" using Cons.prems Insert by simp
    from Cons.IH [OF d] show ?thesis using Insert nk by simp
  next
    case (Assign k v)
    then have nk: "k \<notin> fst ` set es" using Cons.prems by auto
    have d: "distinct (map fst (es @ [(k, v)]) @ inserted cs)" using Cons.prems Assign by simp
    from Cons.IH [OF d] show ?thesis using Assign nk by simp
  next
    case (Erase k)
    let ?es = "filter (\<lambda>kv. fst kv \<noteq> k) es"
    let ?R = "spec_run cs ?es"
    have mf: "map fst ?es = filter (\<lambda>x. x \<noteq> k) (map fst es)"
      by (simp add: filter_map comp_def)
    have d: "distinct (map fst ?es @ inserted cs)"
      unfolding mf using Cons.prems Erase by auto
    have ih: "map fst ?R = filter (\<lambda>k. k \<in> fst ` set ?R) (map fst ?es @ inserted cs)"
      by (rule Cons.IH [OF d])
    have "filter (\<lambda>x. x \<in> fst ` set ?R) (map fst ?es) =
          filter (\<lambda>x. x \<in> fst ` set ?R) (map fst es)"
    proof (cases "k \<in> set (map fst es)")
      case False
      then have "filter (\<lambda>x. x \<noteq> k) (map fst es) = map fst es"
        by (auto simp: filter_id_conv)
      then show ?thesis unfolding mf by simp
    next
      case True
      then have "k \<notin> set (inserted cs)" using Cons.prems Erase by auto
      moreover have "k \<notin> fst ` set ?es" by auto
      ultimately have kr: "k \<notin> fst ` set ?R" using spec_run_keys_subset [of cs ?es] by blast
      have "filter (\<lambda>x. x \<in> fst ` set ?R) (filter (\<lambda>x. x \<noteq> k) (map fst es)) =
            filter (\<lambda>x. x \<noteq> k \<and> x \<in> fst ` set ?R) (map fst es)"
        by simp
      also have "\<dots> = filter (\<lambda>x. x \<in> fst ` set ?R) (map fst es)"
        using kr by (intro filter_cong refl) auto
      finally show ?thesis unfolding mf .
    qed
    then show ?thesis using ih Erase by simp
  qed
qed

lemma spec_run_no_erase:
  "erases cs = [] \<Longrightarrow> distinct (map fst es @ inserted cs) \<Longrightarrow>
   map fst (spec_run cs es) = map fst es @ inserted cs"
proof (induction cs arbitrary: es)
  case Nil
  then show ?case by simp
next
  case (Cons c cs)
  show ?case
  proof (cases c)
    case (Insert k v)
    then have nk: "k \<notin> fst ` set es" using Cons.prems by auto
    have d: "distinct (map fst (es @ [(k, v)]) @ inserted cs)" using Cons.prems Insert by simp
    have e: "erases cs = []" using Cons.prems Insert by simp
    from Cons.IH [OF e d] show ?thesis using Insert nk by simp
  next
    case (Assign k v)
    then have nk: "k \<notin> fst ` set es" using Cons.prems by auto
    have d: "distinct (map fst (es @ [(k, v)]) @ inserted cs)" using Cons.prems Assign by simp
    have e: "erases cs = []" using Cons.prems Assign by simp
    from Cons.IH [OF e d] show ?thesis using Assign nk by simp
  next
    case (Erase k)
    then show ?thesis using Cons.prems by simp
  qed
qed

lemma run_from_ctor:
  fixes hash :: "'k \<Rightarrow> nat" and dflt :: 'v
  shows "\<exists>m0 (h0 :: ('k, 'v) heap) m h. ctor self empty_heap = Some (m0, h0) \<and>
           run hash dflt cs m0 h0 = Some (m, h) \<and> abs_map hash m h (spec_run cs [])"
proof -
  from abs_ctor [of self hash] obtain m0 and h0 :: "('k, 'v) heap" where
    c: "ctor self empty_heap = Some (m0, h0)" "abs_map hash m0 h0 []" by blast
  from run_refines [OF c(2), of dflt cs] show ?thesis using c(1) by blast
qed

subsection \<open>Iteration order\<close>

text \<open>
  C1: a program of insertions (by \<open>insert\<close> or \<open>operator[]\<close>) with pairwise distinct keys and
  of erasures, run on a new map, returns, and iterating the map from \<open>begin()\<close> to \<open>end()\<close>
  then yields the entries of the insertion-ordered map of the specification: the keys
  still in the map, in the order in which they were inserted, whatever resizes the
  insertions and erasures triggered; without erasures these are all inserted keys.
\<close>

theorem insertion_order_preserved:
  fixes hash :: "'k \<Rightarrow> nat" and dflt :: 'v
  assumes "distinct (inserted cs)"
  shows "\<exists>m0 (h0 :: ('k, 'v) heap) m h es. ctor self empty_heap = Some (m0, h0) \<and>
           run hash dflt cs m0 h0 = Some (m, h) \<and> to_list m h = Some es \<and>
           es = spec_run cs [] \<and>
           map fst es = filter (\<lambda>k. k \<in> fst ` set es) (inserted cs) \<and>
           (erases cs = [] \<longrightarrow> map fst es = inserted cs)"
proof -
  from run_from_ctor [of self hash dflt cs] obtain m0 and h0 :: "('k, 'v) heap" and m h where
    r: "ctor self empty_heap = Some (m0, h0)" "run hash dflt cs m0 h0 = Some (m, h)"
       "abs_map hash m h (spec_run cs [])"
    by blast
  have d: "distinct (map fst ([] :: ('k \<times> 'v) list) @ inserted cs)" using assms by simp
  have o: "map fst (spec_run cs []) =
      filter (\<lambda>k. k \<in> fst ` set (spec_run cs [])) (inserted cs)"
    using spec_run_order [OF d] by simp
  have n: "erases cs = [] \<longrightarrow> map fst (spec_run cs []) = inserted cs"
    using spec_run_no_erase [OF _ d] by simp
  have t: "to_list m h = Some (spec_run cs [])" using r(3) by (simp add: abs_map_def)
  show ?thesis using r(1,2) t o n by blast
qed

lemma inserted_map_Insert: "inserted (map (\<lambda>i. Insert i (f i)) xs) = xs"
  by (induction xs) simp_all

lemma erases_map_Insert: "erases (map (\<lambda>i. Insert i (f i)) xs) = []"
  by (induction xs) simp_all

lemma grow_sixteen:
  "(do { (m0, h0) \<leftarrow> ctor 0 (empty_heap :: (nat, nat) heap);
         (m, h) \<leftarrow> run (\<lambda>k. k) 0 (map (\<lambda>i. Insert i (10 * i)) [0..<16]) m0 h0;
         Some (len m, load m) }) = Some (27, 16)"
  by code_simp

lemma reinsert_reads_old:
  "(do { (m0, h0) \<leftarrow> ctor 0 (empty_heap :: (nat, nat) heap);
         (m, h) \<leftarrow> run (\<lambda>k. k) 0 [Insert 1 10, Insert 2 20, Insert 3 30, Insert 1 99] m0 h0;
         (r, m1, h1) \<leftarrow> at_lhm (\<lambda>k. k) 1 m h;
         (case r of Inl e \<Rightarrow> None | Inr p \<Rightarrow> ref_get p h1) }) = Some 10"
  by code_simp

theorem insertion_order_preserved_witness:
  "distinct (inserted (map (\<lambda>i. Insert i (10 * i)) [0..<16] :: (nat, nat) command list)) \<and>
   erases (map (\<lambda>i. Insert i (10 * i)) [0..<16] :: (nat, nat) command list) = [] \<and>
   (\<exists>m0 (h0 :: (nat, nat) heap) m h es. ctor 0 empty_heap = Some (m0, h0) \<and>
      run (\<lambda>k. k) 0 (map (\<lambda>i. Insert i (10 * i)) [0..<16]) m0 h0 = Some (m, h) \<and>
      len m = 27 \<and> to_list m h = Some es \<and> map fst es = [0..<16])"
proof -
  let ?cs = "map (\<lambda>i. Insert i (10 * i)) [0..<16] :: (nat, nat) command list"
  have i: "inserted ?cs = [0..<16]" by (rule inserted_map_Insert)
  have e: "erases ?cs = []" by (rule erases_map_Insert)
  have d: "distinct (inserted ?cs)" unfolding i by simp
  from insertion_order_preserved [OF d, of 0 "\<lambda>k. k" 0]
  obtain m0 and h0 :: "(nat, nat) heap" and m h es where
    r: "ctor 0 empty_heap = Some (m0, h0)" "run (\<lambda>k. k) 0 ?cs m0 h0 = Some (m, h)"
       "to_list m h = Some es" "erases ?cs = [] \<longrightarrow> map fst es = inserted ?cs"
    by blast
  have k: "map fst es = [0..<16]" using r(4) e i by simp
  have "len m = 27" using grow_sixteen r(1,2) by simp
  then show ?thesis using d e r(1,2,3) k by blast
qed

subsection \<open>Inserting a present key again\<close>

text \<open>
  C9, as stated, fails for \<open>insert\<close>: after the keys 1, 2, 3 have been inserted with the
  values 10, 20, 30, inserting the key 1 with the value 99 leaves the value 10 at the
  key 1 (\<open>insert\<close> does not touch an entry that is present).
\<close>

theorem reinsert_by_insert_counterexample:
  "(do { (m0, h0) \<leftarrow> ctor 0 (empty_heap :: (nat, nat) heap);
         (m, h) \<leftarrow> run (\<lambda>k. k) 0 [Insert 1 10, Insert 2 20, Insert 3 30, Insert 1 99] m0 h0;
         (r, m1, h1) \<leftarrow> at_lhm (\<lambda>k. k) 1 m h;
         (case r of Inl e \<Rightarrow> None | Inr p \<Rightarrow> ref_get p h1) }) \<noteq> Some 99"
  unfolding reinsert_reads_old by simp

text \<open>
  C9, amended: after inserting the keys \<open>a\<close>, \<open>b\<close>, \<open>c\<close> in that order into a new map, a
  further \<open>insert\<close> of \<open>a\<close> with a new value leaves the order \<open>a\<close>, \<open>b\<close>, \<open>c\<close> and the old value
  at \<open>a\<close>; the assignment \<^verbatim>\<open>m[a] = v\<close> leaves the order \<open>a\<close>, \<open>b\<close>, \<open>c\<close> and stores the new value
  at \<open>a\<close>.
\<close>

theorem reinsert_keeps_order:
  fixes hash :: "'k \<Rightarrow> nat" and dflt :: 'v
  assumes "distinct [a, b, c]"
  shows "\<exists>m0 (h0 :: ('k, 'v) heap) m h m2 h2. ctor self empty_heap = Some (m0, h0) \<and>
           run hash dflt [Insert a va, Insert b vb, Insert c vc, Insert a v] m0 h0 = Some (m, h) \<and>
           to_list m h = Some [(a, va), (b, vb), (c, vc)] \<and>
           run hash dflt [Insert a va, Insert b vb, Insert c vc, Assign a v] m0 h0 = Some (m2, h2) \<and>
           to_list m2 h2 = Some [(a, v), (b, vb), (c, vc)]"
proof -
  from abs_ctor [of self hash] obtain m0 and h0 :: "('k, 'v) heap" where
    c: "ctor self empty_heap = Some (m0, h0)" "abs_map hash m0 h0 []" by blast
  from run_refines [OF c(2), of dflt "[Insert a va, Insert b vb, Insert c vc, Insert a v]"]
  obtain m h where
    r1: "run hash dflt [Insert a va, Insert b vb, Insert c vc, Insert a v] m0 h0 = Some (m, h)"
        "abs_map hash m h (spec_run [Insert a va, Insert b vb, Insert c vc, Insert a v] [])"
    by blast
  from run_refines [OF c(2), of dflt "[Insert a va, Insert b vb, Insert c vc, Assign a v]"]
  obtain m2 h2 where
    r2: "run hash dflt [Insert a va, Insert b vb, Insert c vc, Assign a v] m0 h0 = Some (m2, h2)"
        "abs_map hash m2 h2 (spec_run [Insert a va, Insert b vb, Insert c vc, Assign a v] [])"
    by blast
  have s1: "spec_run [Insert a va, Insert b vb, Insert c vc, Insert a v] [] =
            [(a, va), (b, vb), (c, vc)]"
    using assms by auto
  have s2: "spec_run [Insert a va, Insert b vb, Insert c vc, Assign a v] [] =
            [(a, v), (b, vb), (c, vc)]"
    using assms by auto
  show ?thesis
    using c(1) r1 r2 unfolding s1 s2 by (auto simp: abs_map_def)
qed

theorem reinsert_keeps_order_witness:
  "distinct [1 :: nat, 2, 3] \<and>
   (\<exists>m0 (h0 :: (nat, nat) heap) m h m2 h2. ctor 0 empty_heap = Some (m0, h0) \<and>
      run (\<lambda>k. k) 0 [Insert 1 10, Insert 2 20, Insert 3 30, Insert 1 99] m0 h0 = Some (m, h) \<and>
      to_list m h = Some [(1, 10), (2, 20), (3, 30)] \<and>
      run (\<lambda>k. k) 0 [Insert 1 10, Insert 2 20, Insert 3 30, Assign 1 99] m0 h0 = Some (m2, h2) \<and>
      to_list m2 h2 = Some [(1, 99), (2, 20), (3, 30)])"
proof -
  have d: "distinct [1 :: nat, 2, 3]" by simp
  from reinsert_keeps_order [OF d, where self = 0 and hash = "\<lambda>k. k" and dflt = "0 :: nat"
      and va = 10 and vb = 20 and vc = 30 and v = 99]
  show ?thesis using d by blast
qed

lemma chain_nodes_ok: "chain h p cs \<Longrightarrow> chain_nodes h p = Some cs"
proof (induction cs arbitrary: p)
  case Nil
  then show ?case by (subst chain_nodes.simps) simp
next
  case (Cons a cs)
  from Cons.prems obtain n where p: "p = Some a" and n: "nodes h a = Some n"
    and ch: "chain h (nxt n) cs"
    by (auto simp: fld_def split: option.splits)
  from Cons.IH [OF ch] show ?case using p n by (subst chain_nodes.simps) simp
qed

lemma order_nodes_ok:
  "tpath h it as (tl_node m) \<Longrightarrow> tl_node m \<notin> set as \<Longrightarrow> order_nodes m h it = Some as"
proof (induction as arbitrary: it)
  case Nil
  then show ?case by (subst order_nodes.simps) simp
next
  case (Cons a as)
  from Cons.prems(1) obtain n where it: "it = Some a" and n: "nodes h a = Some n"
    and tp: "tpath h (time_nxt n) as (tl_node m)"
    by (auto simp: fld_def split: option.splits)
  have atl: "a \<noteq> tl_node m" using Cons.prems(2) by auto
  have "order_nodes m h (time_nxt n) = Some as" using Cons.IH [OF tp] Cons.prems(2) by simp
  then show ?case using it n atl by (subst order_nodes.simps) simp
qed

lemma live_nodes_ok:
  assumes "olist m h as"
  shows "live_nodes m h = Some as"
proof -
  from assms have dl: "dll h (hd_node m) as (tl_node m)" and t: "tl_node m \<notin> set as"
    by (simp_all add: olist_def)
  from dll_tpath [OF dl] obtain it where it: "fld time_nxt h (hd_node m) = Some it"
    "tpath h it as (tl_node m)" by blast
  then obtain nh where nh: "nodes h (hd_node m) = Some nh" "time_nxt nh = it"
    by (auto simp: fld_def)
  from order_nodes_ok [OF it(2) t] show ?thesis by (simp add: live_nodes_def nh)
qed

lemma dual_structureI:
  assumes ol: "olist m h as" and bk: "bk hash m h as"
  shows "dual_structure hash m h"
proof -
  from bk have len: "0 < len m" "length (buc m) = len m" by (auto simp: bk_def)
  have c: "\<exists>cs. chain_nodes h (buc m ! i) = Some cs \<and>
             set cs = {a \<in> set as. hash (key h a) mod len m = i}" if "i < len m" for i
  proof -
    from bk that obtain cs where "chain h (buc m ! i) cs"
      "set cs = {a \<in> set as. hash (key h a) mod len m = i}"
      unfolding bk_def by blast
    then show ?thesis using chain_nodes_ok by blast
  qed
  have a: "case entry h n of None \<Rightarrow> False
           | Some kv \<Rightarrow> (case chain_nodes h (buc m ! (hash (fst kv) mod len m)) of
                None \<Rightarrow> False | Some cs \<Rightarrow> n \<in> set cs)" if n: "n \<in> set as" for n
  proof -
    from ol n obtain kv where kv: "entry h n = Some kv" by (auto simp: olist_def)
    have k: "key h n = fst kv" using kv by (simp add: key_def)
    have "hash (fst kv) mod len m < len m" using len by simp
    from c [OF this] obtain cs where
      "chain_nodes h (buc m ! (hash (fst kv) mod len m)) = Some cs"
      "set cs = {a \<in> set as. hash (key h a) mod len m = hash (fst kv) mod len m}"
      by blast
    then show ?thesis using kv n k by simp
  qed
  have b: "case chain_nodes h (buc m ! i) of None \<Rightarrow> False | Some cs \<Rightarrow> set cs \<subseteq> set as"
    if "i \<in> {0..<len m}" for i
  proof -
    from that have "i < len m" by simp
    from c [OF this] obtain cs where "chain_nodes h (buc m ! i) = Some cs"
      "set cs = {a \<in> set as. hash (key h a) mod len m = i}" by blast
    then show ?thesis by auto
  qed
  show ?thesis
    unfolding dual_structure_def live_nodes_ok [OF ol] using len a b by simp
qed

lemma Find_present_gen:
  assumes ol: "olist m h as" and bk: "bk hash m h as" and a: "a \<in> set as" "key h a = x"
  shows "Find hash x m h = Some a"
proof -
  let ?i = "hash x mod len m"
  from bk have len: "0 < len m" "length (buc m) = len m" by (auto simp: bk_def)
  then have i: "?i < len m" by simp
  with bk obtain cs where cs: "chain h (buc m ! ?i) cs"
    "set cs = {a \<in> set as. hash (key h a) mod len m = ?i}"
    unfolding bk_def by blast
  have ent: "\<forall>a\<in>set cs. entry h a \<noteq> None" using cs(2) ol by (auto simp: olist_def)
  have "distinct (map (key h) as)" using ol by (simp add: olist_def)
  then have inj: "inj_on (key h) (set as)" by (simp add: distinct_map)
  have "a \<in> set cs" using cs(2) a by simp
  moreover have "\<forall>b\<in>set cs. b \<noteq> a \<longrightarrow> key h b \<noteq> x"
  proof (intro ballI impI)
    fix b assume b: "b \<in> set cs" "b \<noteq> a"
    then have "b \<in> set as" using cs(2) by simp
    then have "key h b \<noteq> key h a" using inj a(1) b(2) by (meson inj_onD)
    then show "key h b \<noteq> x" using a(2) by simp
  qed
  ultimately have "List.find (\<lambda>a. key h a = x) cs = Some a"
    using a(2) by (intro find_unique) auto
  then show ?thesis using Find_loop_chain [OF cs(1) ent, of x m] len i by (simp add: Find_def)
qed

lemma Find_absent_gen:
  assumes ol: "olist m h as" and bk: "bk hash m h as" and x: "x \<notin> key h ` set as"
  shows "Find hash x m h = Some (tl_node m)"
proof -
  let ?i = "hash x mod len m"
  from bk have len: "0 < len m" "length (buc m) = len m" by (auto simp: bk_def)
  then have i: "?i < len m" by simp
  with bk obtain cs where cs: "chain h (buc m ! ?i) cs"
    "set cs = {a \<in> set as. hash (key h a) mod len m = ?i}"
    unfolding bk_def by blast
  have ent: "\<forall>a\<in>set cs. entry h a \<noteq> None" using cs(2) ol by (auto simp: olist_def)
  have "List.find (\<lambda>a. key h a = x) cs = None"
    using cs(2) x by (auto simp: find_None_iff)
  then show ?thesis using Find_loop_chain [OF cs(1) ent, of x m] len i by (simp add: Find_def)
qed

lemma Find_same:
  assumes "olist m h as" "bk hash m h as" "olist m' h' as" "bk hash m' h' as"
    "tl_node m' = tl_node m" "\<forall>a\<in>set as. key h' a = key h a"
  shows "Find hash k m' h' = Find hash k m h"
proof (cases "k \<in> key h ` set as")
  case True
  then obtain a where a: "a \<in> set as" "key h a = k" by auto
  then have a': "key h' a = k" using assms(6) by simp
  show ?thesis
    using Find_present_gen [OF assms(1,2) a] Find_present_gen [OF assms(3,4) a(1) a'] by simp
next
  case False
  then have "k \<notin> key h' ` set as" using assms(6) by (auto simp: image_iff)
  then show ?thesis
    using Find_absent_gen [OF assms(1,2) False] Find_absent_gen [OF assms(3,4)] assms(5) by simp
qed

lemma fp_below: "invl hash m h as \<Longrightarrow> fp m as \<subseteq> {..<brk h}"
  by (auto simp: invl_def olist_def fp_def)

lemma steps_frame:
  assumes "(step hash)\<^sup>*\<^sup>* (B, h1) (B', h2)"
    and "invl hash B h1 asB" and "fp B asB \<subseteq> {b..<brk h1}" and "b \<le> brk h1"
  shows "\<exists>asB'. invl hash B' h2 asB' \<and> fp B' asB' \<subseteq> {b..<brk h2} \<and> b \<le> brk h2 \<and>
           (\<forall>z<b. nodes h2 z = nodes h1 z)"
  using assms(1)
proof (induction rule: rtranclp_induct2)
  case refl
  show ?case using assms(2-4) by blast
next
  case (step B2 h2 B3 h3)
  from step.IH obtain as2 where i: "invl hash B2 h2 as2" "fp B2 as2 \<subseteq> {b..<brk h2}"
    "b \<le> brk h2" "\<forall>z<b. nodes h2 z = nodes h1 z" by blast
  from step_invl [OF i(1) step.hyps(2)] obtain as3 where
    j: "invl hash B3 h3 as3" "hd_node B3 = hd_node B2" "tl_node B3 = tl_node B2"
       "brk h2 \<le> brk h3" "set as3 \<subseteq> set as2 \<union> {brk h2..<brk h3}"
       "\<forall>z. z \<notin> fp B2 as2 \<longrightarrow> z < brk h2 \<longrightarrow> nodes h3 z = nodes h2 z"
    by blast
  have f: "fp B3 as3 \<subseteq> fp B2 as2 \<union> {brk h2..<brk h3}"
    using j(2,3,5) unfolding fp_def by auto
  have f3: "fp B3 as3 \<subseteq> {b..<brk h3}"
  proof
    fix z assume "z \<in> fp B3 as3"
    with f have "z \<in> fp B2 as2 \<or> z \<in> {brk h2..<brk h3}" by blast
    then show "z \<in> {b..<brk h3}" using i(2,3) j(4) by auto
  qed
  have n: "\<forall>z<b. nodes h3 z = nodes h1 z"
  proof (intro allI impI)
    fix z assume z: "z < b"
    then have "z \<notin> fp B2 as2" using i(2) by auto
    moreover have "z < brk h2" using z i(3) by simp
    ultimately have "nodes h3 z = nodes h2 z" using j(6) by blast
    then show "nodes h3 z = nodes h1 z" using i(4) z by simp
  qed
  show ?case using j(1) f3 n i(3) j(4) by (intro exI [of _ as3]) simp
qed

lemma Find_frame:
  assumes inv: "invl hash m h as" and same: "\<forall>z<brk h. nodes h' z = nodes h z"
    and le: "brk h \<le> brk h'"
  shows "Find hash k m h' = Find hash k m h" "to_list m h' = to_list m h"
proof -
  have s: "\<forall>z\<in>fp m as. nodes h' z = nodes h z" using fp_below [OF inv] same by auto
  from invl_frame [OF inv s le] have i': "invl hash m h' as" and e: "ents h' as = ents h as" .
  have k: "\<forall>a\<in>set as. key h' a = key h a"
  proof
    fix a assume "a \<in> set as"
    then have "a \<in> fp m as" by (simp add: fp_def)
    then have "nodes h' a = nodes h a" using s by blast
    then show "key h' a = key h a" by (simp add: key_def entry_def)
  qed
  show "Find hash k m h' = Find hash k m h"
    using inv i' k by (intro Find_same [where as = as]) (simp_all add: invl_def)
  show "to_list m h' = to_list m h" using invl_to_list [OF inv] invl_to_list [OF i'] e by simp
qed

text \<open>
  C8: copy construction gives an independent container.  For every reachable container
  \<open>A\<close>, the copy constructor returns a container \<open>B\<close> with the entries of \<open>A\<close> in the same
  order, \<open>A\<close> itself is unchanged by the copy, and no sequence of operations on \<open>B\<close>
  (\<open>insert\<close>, \<open>erase\<close>, \<open>operator[]\<close> with or without assignment, \<open>clear\<close>) changes what
  \<open>A\<close> holds: its entry list, and the node that a lookup of any key finds, stay as
  they were.
\<close>

theorem copy_is_independent:
  assumes "reachable hash A h"
  shows "\<exists>B h1 es. copy_ctor hash self A h = Some (B, h1) \<and>
           to_list A h = Some es \<and> to_list B h1 = Some es \<and> to_list A h1 = Some es \<and>
           (\<forall>B' h2. (step hash)\<^sup>*\<^sup>* (B, h1) (B', h2) \<longrightarrow>
              to_list A h2 = Some es \<and> (\<forall>k. Find hash k A h2 = Find hash k A h))"
proof -
  from reachable_invl [OF assms] obtain asA where a: "invl hash A h asA" by blast
  from copy_ctor_ok [OF a, of self] obtain B h1 asB where
    c: "copy_ctor hash self A h = Some (B, h1)" "invl hash B h1 asB"
       "ents h1 asB = ents h asA" "brk h \<le> brk h1" "fp B asB \<subseteq> {brk h..<brk h1}"
       "\<forall>z. z < brk h \<longrightarrow> nodes h1 z = nodes h z"
    by blast
  let ?es = "ents h asA"
  have tA: "to_list A h = Some ?es" using a by (rule invl_to_list)
  have tB: "to_list B h1 = Some ?es" using invl_to_list [OF c(2)] c(3) by simp
  have s1: "\<forall>z<brk h. nodes h1 z = nodes h z" using c(6) by simp
  have tA1: "to_list A h1 = Some ?es" using Find_frame(2) [OF a s1 c(4)] tA by simp
  have later: "to_list A h2 = Some ?es \<and> (\<forall>k. Find hash k A h2 = Find hash k A h)"
    if st: "(step hash)\<^sup>*\<^sup>* (B, h1) (B', h2)" for B' h2
  proof -
    from steps_frame [OF st c(2) c(5) c(4)] have
      le: "brk h \<le> brk h2" and n: "\<forall>z<brk h. nodes h2 z = nodes h1 z" by auto
    have s2: "\<forall>z<brk h. nodes h2 z = nodes h z" using n s1 by simp
    show ?thesis using Find_frame [OF a s2 le] tA by simp
  qed
  show ?thesis using c(1) tA tB tA1 later by blast
qed

theorem copy_is_independent_witness:
  "\<exists>A (h :: (nat, nat) heap) B h1 B' h2.
     reachable (\<lambda>k. k) A h \<and> copy_ctor (\<lambda>k. k) 7 A h = Some (B, h1) \<and>
     to_list A h = Some [(1, 10)] \<and> to_list B h1 = Some [(1, 10)] \<and>
     (step (\<lambda>k. k))\<^sup>*\<^sup>* (B, h1) (B', h2) \<and>
     to_list B' h2 = Some [(1, 10), (2, 20)] \<and> to_list A h2 = Some [(1, 10)] \<and>
     Find (\<lambda>k. k) 2 A h2 = Find (\<lambda>k. k) 2 A h"
proof -
  from example_one obtain A and h :: "(nat, nat) heap" where
    ab: "abs_map (\<lambda>k. k) A h [(1, 10)]" by blast
  then have r: "reachable (\<lambda>k. k) A h" and t: "to_list A h = Some [(1, 10)]"
    by (simp_all add: abs_map_def)
  from copy_is_independent [OF r, where self = 7] t obtain B h1 where
    c: "copy_ctor (\<lambda>k. k) 7 A h = Some (B, h1)" "to_list B h1 = Some [(1, 10)]"
       "\<forall>B' h2. (step (\<lambda>k. k))\<^sup>*\<^sup>* (B, h1) (B', h2) \<longrightarrow>
              to_list A h2 = Some [(1, 10)] \<and> (\<forall>k. Find (\<lambda>k. k) k A h2 = Find (\<lambda>k. k) k A h)"
    by auto
  have rB: "reachable (\<lambda>k. k) B h1" using r c(1) by (rule reach_copy)
  have abB: "abs_map (\<lambda>k. k) B h1 [(1, 10)]" using rB c(2) by (rule abs_mapI)
  from abs_insert_new [OF abB, of 2 20] obtain it B' h2 where
    i: "insert_lhm (\<lambda>k. k) (2, 20) B h1 = Some (it, B', h2)"
       "abs_map (\<lambda>k. k) B' h2 ([(1, 10)] @ [(2, 20)])"
    by auto
  have st: "step (\<lambda>k. k) (B, h1) (B', h2)" using i(1) by (rule step_insert)
  then have sts: "(step (\<lambda>k. k))\<^sup>*\<^sup>* (B, h1) (B', h2)" by (rule r_into_rtranclp)
  have tB': "to_list B' h2 = Some [(1, 10), (2, 20)]" using i(2) by (simp add: abs_map_def)
  from c(3) sts have "to_list A h2 = Some [(1, 10)]"
    "Find (\<lambda>k. k) 2 A h2 = Find (\<lambda>k. k) 2 A h" by blast+
  then show ?thesis using r c(1) t c(2) sts tB' by blast
qed

lemma resize_ok:
  assumes inv: "invl hash m h as" and d: "d = 1 \<or> (d = - 1 \<and> LEN < len m)"
  shows "\<exists>m' h'. ChangeSpace hash d (m\<lparr>load := l\<rparr>) h = Some (m', h') \<and>
           len m' = (if d = 1 then 2 * len m + 1 else len m div 2) \<and>
           dual_structure hash m' h' \<and> to_list m' h' = to_list m h \<and>
           (\<forall>k. Find hash k m' h' = Find hash k m h) \<and> (\<forall>a. entry h' a = entry h a)"
proof -
  let ?m0 = "m\<lparr>load := l\<rparr>"
  let ?l1 = "if d = 1 then 2 * len m + 1 else len m div 2"
  from inv have ol: "olist m h as" and bk: "bk hash m h as" by (simp_all add: invl_def)
  have ol0: "olist ?m0 h as" using ol olist_cong_m [of ?m0 m h as] by simp
  have lm: "len ?m0 = len m" by simp
  have l1: "?l1 = (if d > 0 then or (push_bit (nat d) (len ?m0)) 1
                   else drop_bit (nat (- d)) (len ?m0))"
  proof (cases "d = 1")
    case True
    have "or (push_bit (nat 1) (len ?m0)) 1 = 2 * len m + 1"
      unfolding lm by (rule or_push_bit_1)
    then show ?thesis unfolding True by (simp only: if_True zero_less_one refl)
  next
    case False
    then have m1: "d = - 1" using d by simp
    have "drop_bit (nat (- (- 1))) (len ?m0) = len m div 2"
      unfolding lm by (rule drop_bit_1)
    then show ?thesis unfolding m1 by simp
  qed
  have pos: "0 < ?l1" using d by (auto simp: LEN_def)
  from ChangeSpace_ok [OF ol0 l1 pos, of hash] obtain bu h' where
    c: "ChangeSpace hash d ?m0 h = Some (?m0\<lparr>len := ?l1, buc := bu\<rparr>, h')"
       "bk hash (?m0\<lparr>len := ?l1, buc := bu\<rparr>) h' as" "nxt_only (set as) h h'"
    by blast
  let ?m' = "?m0\<lparr>len := ?l1, buc := bu\<rparr>"
  have ol': "olist ?m' h' as"
    using ol nxt_only_olist [OF c(3), of ?m' as] olist_cong_m [of ?m' m h as] by simp
  have e: "\<forall>a. entry h' a = entry h a" using nxt_only_entry [OF c(3)] by simp
  have k: "\<forall>a\<in>set as. key h' a = key h a" using nxt_only_key [OF c(3)] by simp
  have ds: "dual_structure hash ?m' h'" using ol' c(2) by (rule dual_structureI)
  have "ents h' as = ents h as" using e by (simp add: ents_def)
  then have tl: "to_list ?m' h' = to_list m h"
    using to_list_ok [OF ol'] to_list_ok [OF ol] by simp
  have f: "\<forall>k. Find hash k ?m' h' = Find hash k m h"
    using Find_same [OF ol bk ol' c(2) _ k] by simp
  have ln: "len ?m' = ?l1" by simp
  show ?thesis using c(1) ln ds tl f e by blast
qed

lemma erase_keeps:
  assumes inv: "invl hash m h as" and er: "erase hash pos m h = Some (Inr (), m', h')"
  shows "(\<forall>k a. Find hash k m h = Some a \<and> Some a \<noteq> at pos \<longrightarrow>
            Find hash k m' h' = Some a \<and> entry h' a = entry h a) \<and>
         (\<exists>es. to_list m h = Some es \<and>
            to_list m' h' = Some (filter (\<lambda>kv. Some kv \<noteq> iterator_deref h pos) es))"
proof -
  from erase_cases [OF inv er] obtain xs a0 ys where
    sp: "as = xs @ a0 # ys" and pos: "at pos = Some a0" "source pos = Some (this m)"
    by auto
  from erase_ok [OF inv [unfolded sp] pos] er have
    i': "invl hash m' h' (xs @ ys)" and en: "\<forall>z\<in>set (xs @ ys). entry h' z = entry h z"
    and tl: "tl_node m' = tl_node m"
    by auto
  have kn: "\<And>z. z \<in> set (xs @ ys) \<Longrightarrow> key h' z = key h z" using en by (simp add: key_def)
  have sn: "entry h (tl_node m) = None" "entry h' (tl_node m) = None"
    using inv i' tl by (simp_all add: invl_def)
  have A: "Find hash k m' h' = Some a \<and> entry h' a = entry h a"
    if f: "Find hash k m h = Some a" and ne: "Some a \<noteq> at pos" for k a
  proof (cases "k \<in> key h ` set as")
    case True
    then obtain b where b: "b \<in> set as" "key h b = k" by auto
    from Find_present [OF inv b] f have ab: "a = b" by simp
    have "b \<noteq> a0" using ne pos ab by simp
    then have b': "b \<in> set (xs @ ys)" using b(1) sp by auto
    have "key h' b = k" using kn [OF b'] b(2) by simp
    from Find_present [OF i' b' this] en b' ab show ?thesis by simp
  next
    case False
    from Find_absent [OF inv False] f have at: "a = tl_node m" by simp
    have "k \<notin> key h' ` set (xs @ ys)"
    proof
      assume "k \<in> key h' ` set (xs @ ys)"
      then obtain z where z: "z \<in> set (xs @ ys)" "key h' z = k" by auto
      then have "key h z = k" using kn by simp
      moreover have "z \<in> set as" using z(1) sp by auto
      ultimately show False using False by auto
    qed
    from Find_absent [OF i' this] tl at sn show ?thesis by simp
  qed
  have d: "distinct (map fst (ents h as))"
    using inv unfolding keys_ents by (simp add: invl_def olist_def)
  then have inj: "inj_on fst (set (ents h as))" by (simp add: distinct_map)
  from inv sp obtain kv0 where kv0: "entry h a0 = Some kv0" by (auto simp: invl_def olist_def)
  have de: "iterator_deref h pos = Some kv0"
    using pos(1) kv0 by (simp add: iterator_deref_def entry_def)
  have mem: "kv0 \<in> set (ents h as)" using kv0 sp by (simp add: ents_def image_iff)
  have k0: "key h a0 = fst kv0" using kv0 by (simp add: key_def)
  have "filter (\<lambda>kv. Some kv \<noteq> iterator_deref h pos) (ents h as) =
        filter (\<lambda>kv. fst kv \<noteq> key h a0) (ents h as)"
  proof (rule filter_cong [OF refl])
    fix kv assume "kv \<in> set (ents h as)"
    then have "(fst kv = fst kv0) = (kv = kv0)" using inj mem by (auto dest: inj_onD)
    then show "(Some kv \<noteq> iterator_deref h pos) = (fst kv \<noteq> key h a0)"
      unfolding de k0 by simp
  qed
  also have "\<dots> = ents h (xs @ ys)" using ents_remove [OF inv [unfolded sp]] sp by simp
  also have "\<dots> = ents h' (xs @ ys)" using en by (simp add: ents_def)
  finally have "to_list m' h' = Some (filter (\<lambda>kv. Some kv \<noteq> iterator_deref h pos) (ents h as))"
    using invl_to_list [OF i'] by simp
  then show ?thesis using A invl_to_list [OF inv] by blast
qed

lemma grown_keeps:
  assumes inv: "invl hash m h as" and i': "invl hash m' h' (as @ [b])"
    and en: "\<forall>a\<in>set as. entry h' a = entry h a" and nb: "entry h' b = Some kv"
  shows "(\<forall>k a. Find hash k m h = Some a \<and> a \<noteq> tl_node m \<longrightarrow>
            Find hash k m' h' = Some a \<and> entry h' a = entry h a) \<and>
         to_list m h = Some (ents h as) \<and> to_list m' h' = Some (ents h as @ [kv])"
proof -
  have A: "Find hash k m' h' = Some a \<and> entry h' a = entry h a"
    if f: "Find hash k m h = Some a" and ne: "a \<noteq> tl_node m" for k a
  proof (cases "k \<in> key h ` set as")
    case True
    then obtain c where c: "c \<in> set as" "key h c = k" by auto
    from Find_present [OF inv c] f have ac: "a = c" by simp
    have c': "c \<in> set (as @ [b])" using c(1) by simp
    have "key h' c = k" using en c by (simp add: key_def)
    from Find_present [OF i' c' this] en c(1) ac show ?thesis by simp
  next
    case False
    from Find_absent [OF inv False] f ne show ?thesis by simp
  qed
  have "ents h' (as @ [b]) = ents h as @ [kv]" using en nb by (simp add: ents_def)
  then have t: "to_list m' h' = Some (ents h as @ [kv])" using invl_to_list [OF i'] by simp
  show ?thesis
  proof (intro conjI allI impI)
    fix k a assume "Find hash k m h = Some a \<and> a \<noteq> tl_node m"
    then show "Find hash k m' h' = Some a" "entry h' a = entry h a" using A by blast+
  next
    show "to_list m h = Some (ents h as)" using inv by (rule invl_to_list)
    show "to_list m' h' = Some (ents h as @ [kv])" by (rule t)
  qed
qed

lemma insert_keeps:
  assumes inv: "invl hash m h as" and ins: "insert_lhm hash kv m h = Some (r, m', h')"
  shows "(\<forall>k a. Find hash k m h = Some a \<and> a \<noteq> tl_node m \<longrightarrow>
            Find hash k m' h' = Some a \<and> entry h' a = entry h a) \<and>
         (\<exists>es. to_list m h = Some es \<and>
            to_list m' h' = Some (if snd r then es @ [kv] else es))"
proof (cases "fst kv \<in> key h ` set as")
  case True
  then obtain a where a: "a \<in> set as" "key h a = fst kv" by auto
  from insert_dup [OF inv a] ins have "m' = m" "h' = h" "\<not> snd r" by auto
  then show ?thesis using invl_to_list [OF inv] by simp
next
  case False
  from insert_new [OF inv False] ins have
    i': "invl hash m' h' (as @ [brk h])" and nb: "entry h' (brk h) = Some kv"
    and en: "\<forall>a\<in>set as. entry h' a = entry h a" and r: "snd r"
    by auto
  from grown_keeps [OF inv i' en nb] have
    g: "\<forall>k a. Find hash k m h = Some a \<and> a \<noteq> tl_node m \<longrightarrow>
            Find hash k m' h' = Some a \<and> entry h' a = entry h a"
       "to_list m h = Some (ents h as)" "to_list m' h' = Some (ents h as @ [kv])"
    by blast+
  show ?thesis
  proof (rule conjI)
    show "\<exists>es. to_list m h = Some es \<and> to_list m' h' = Some (if snd r then es @ [kv] else es)"
      using g(2,3) r by simp
  qed (rule g(1))
qed

lemma subscript_keeps:
  assumes inv: "invl hash m h as" and su: "subscript hash dflt k0 m h = Some (p, m', h')"
  shows "(\<forall>k a. Find hash k m h = Some a \<and> a \<noteq> tl_node m \<longrightarrow>
            Find hash k m' h' = Some a \<and> entry h' a = entry h a) \<and>
         (\<exists>es. to_list m h = Some es \<and>
            to_list m' h' = Some (if k0 \<in> fst ` set es then es else es @ [(k0, dflt)]))"
proof (cases "k0 \<in> key h ` set as")
  case True
  then obtain a where a: "a \<in> set as" "key h a = k0" by auto
  from subscript_old [OF inv a, of dflt] su have "m' = m" "h' = h" by auto
  then show ?thesis using invl_to_list [OF inv] True keys_of_ents [OF inv] by simp
next
  case False
  from subscript_new [OF inv False, of dflt] su have
    i': "invl hash m' h' (as @ [brk h])" and nb: "entry h' (brk h) = Some (k0, dflt)"
    and en: "\<forall>a\<in>set as. entry h' a = entry h a"
    by auto
  from grown_keeps [OF inv i' en nb] have
    g: "\<forall>k a. Find hash k m h = Some a \<and> a \<noteq> tl_node m \<longrightarrow>
            Find hash k m' h' = Some a \<and> entry h' a = entry h a"
       "to_list m h = Some (ents h as)" "to_list m' h' = Some (ents h as @ [(k0, dflt)])"
    by blast+
  show ?thesis
  proof (rule conjI)
    show "\<exists>es. to_list m h = Some es \<and>
            to_list m' h' = Some (if k0 \<in> fst ` set es then es else es @ [(k0, dflt)])"
      using g(2,3) False keys_of_ents [OF inv] by simp
  qed (rule g(1))
qed

lemma invl_dual: "invl hash m h as \<Longrightarrow> dual_structure hash m h"
  by (rule dual_structureI [of m h as]) (simp_all add: invl_def)

lemma fourteen_full:
  "(do { (m0, h0) \<leftarrow> ctor 0 (empty_heap :: (nat, nat) heap);
         (m, h) \<leftarrow> run (\<lambda>k. k) 0 (map (\<lambda>i. Insert i (10 * i)) [0..<14]) m0 h0;
         Some (len m, load m) }) = Some (13, 14)"
  by code_simp

lemma spec_fourteen:
  "spec_run (map (\<lambda>i. Insert i (10 * i)) [0..<14]) ([] :: (nat \<times> nat) list) =
   map (\<lambda>i. (i, 10 * i)) [0..<14]"
  by code_simp

lemma shrink_example:
  "(do { (m0, h0) \<leftarrow> ctor 0 (empty_heap :: (nat, nat) heap);
         (m, h) \<leftarrow> run (\<lambda>k. k) 0 (map (\<lambda>i. Insert i (10 * i)) [0..<15]) m0 h0;
         (m1, h1) \<leftarrow> run (\<lambda>k. k) 0 (map Erase [0..<8]) m h;
         (m2, h2) \<leftarrow> run (\<lambda>k. k) 0 [Erase 8] m1 h1;
         es \<leftarrow> to_list m2 h2;
         Some (len m, len m1, len m2, map fst es, dual_structure (\<lambda>k. k) m2 h2) }) =
   Some (27, 27, 13, [9, 10, 11, 12, 13, 14], True)"
  by code_simp

subsection \<open>The dual-structure invariant and resizing\<close>

text \<open>
  C2: the dual-structure invariant holds in every reachable container state and is kept
  by \<open>insert\<close>, \<open>erase\<close>, \<open>operator[]\<close> (with or without an assignment), \<open>clear\<close> and by a
  resize.  \<open>dual_structure\<close> says: every node on the order list is on the chain of the
  bucket \<open>hash key mod len\<close>, and every node on the chain of any bucket is on the order
  list.  A resize (\<^verbatim>\<open>ChangeSpace\<close> by \<open>1\<close>, or by \<open>-1\<close> when \<open>len > LEN\<close>, whatever the load
  counter is) returns, gives the new capacity, keeps the invariant, the iteration
  sequence, every stored pair, and the node that \<^verbatim>\<open>Find\<close> reaches for every key.  An
  \<open>insert\<close>, an \<open>operator[]\<close> and an \<open>erase\<close>, whether or not they resize the table, leave
  every other live key at the node where it was, with the pair it had, and in the same
  relative position of the iteration sequence.
\<close>

theorem dual_structure_invariant:
  assumes "reachable hash m h"
  shows "dual_structure hash m h \<and>
    (\<forall>m' h'. step hash (m, h) (m', h') \<longrightarrow> dual_structure hash m' h') \<and>
    (\<forall>d l. d = 1 \<or> (d = - 1 \<and> LEN < len m) \<longrightarrow>
       (\<exists>m' h'. ChangeSpace hash d (m\<lparr>load := l\<rparr>) h = Some (m', h') \<and>
          len m' = (if d = 1 then 2 * len m + 1 else len m div 2) \<and>
          dual_structure hash m' h' \<and> to_list m' h' = to_list m h \<and>
          (\<forall>k. Find hash k m' h' = Find hash k m h) \<and> (\<forall>a. entry h' a = entry h a))) \<and>
    (\<forall>kv r m' h'. insert_lhm hash kv m h = Some (r, m', h') \<longrightarrow>
       (\<forall>k a. Find hash k m h = Some a \<and> a \<noteq> tl_node m \<longrightarrow>
          Find hash k m' h' = Some a \<and> entry h' a = entry h a) \<and>
       (\<exists>es. to_list m h = Some es \<and>
          to_list m' h' = Some (if snd r then es @ [kv] else es))) \<and>
    (\<forall>dflt k0 p m' h'. subscript hash dflt k0 m h = Some (p, m', h') \<longrightarrow>
       (\<forall>k a. Find hash k m h = Some a \<and> a \<noteq> tl_node m \<longrightarrow>
          Find hash k m' h' = Some a \<and> entry h' a = entry h a) \<and>
       (\<exists>es. to_list m h = Some es \<and>
          to_list m' h' = Some (if k0 \<in> fst ` set es then es else es @ [(k0, dflt)]))) \<and>
    (\<forall>pos m' h'. erase hash pos m h = Some (Inr (), m', h') \<longrightarrow>
       (\<forall>k a. Find hash k m h = Some a \<and> Some a \<noteq> at pos \<longrightarrow>
          Find hash k m' h' = Some a \<and> entry h' a = entry h a) \<and>
       (\<exists>es. to_list m h = Some es \<and>
          to_list m' h' = Some (filter (\<lambda>kv. Some kv \<noteq> iterator_deref h pos) es)))"
proof -
  from reachable_invl [OF assms] obtain as where inv: "invl hash m h as" by blast
  have c1: "dual_structure hash m h" using inv by (rule invl_dual)
  have c2: "\<forall>m' h'. step hash (m, h) (m', h') \<longrightarrow> dual_structure hash m' h'"
  proof (intro allI impI)
    fix m' h' assume "step hash (m, h) (m', h')"
    from step_invl [OF inv this] obtain as' where "invl hash m' h' as'" by blast
    then show "dual_structure hash m' h'" by (rule invl_dual)
  qed
  have c3: "\<forall>d l. d = 1 \<or> (d = - 1 \<and> LEN < len m) \<longrightarrow>
       (\<exists>m' h'. ChangeSpace hash d (m\<lparr>load := l\<rparr>) h = Some (m', h') \<and>
          len m' = (if d = 1 then 2 * len m + 1 else len m div 2) \<and>
          dual_structure hash m' h' \<and> to_list m' h' = to_list m h \<and>
          (\<forall>k. Find hash k m' h' = Find hash k m h) \<and> (\<forall>a. entry h' a = entry h a))"
    using resize_ok [OF inv] by blast
  have c4: "\<forall>kv r m' h'. insert_lhm hash kv m h = Some (r, m', h') \<longrightarrow>
       (\<forall>k a. Find hash k m h = Some a \<and> a \<noteq> tl_node m \<longrightarrow>
          Find hash k m' h' = Some a \<and> entry h' a = entry h a) \<and>
       (\<exists>es. to_list m h = Some es \<and>
          to_list m' h' = Some (if snd r then es @ [kv] else es))"
    using insert_keeps [OF inv] by blast
  have c5: "\<forall>dflt k0 p m' h'. subscript hash dflt k0 m h = Some (p, m', h') \<longrightarrow>
       (\<forall>k a. Find hash k m h = Some a \<and> a \<noteq> tl_node m \<longrightarrow>
          Find hash k m' h' = Some a \<and> entry h' a = entry h a) \<and>
       (\<exists>es. to_list m h = Some es \<and>
          to_list m' h' = Some (if k0 \<in> fst ` set es then es else es @ [(k0, dflt)]))"
    using subscript_keeps [OF inv] by blast
  have c6: "\<forall>pos m' h'. erase hash pos m h = Some (Inr (), m', h') \<longrightarrow>
       (\<forall>k a. Find hash k m h = Some a \<and> Some a \<noteq> at pos \<longrightarrow>
          Find hash k m' h' = Some a \<and> entry h' a = entry h a) \<and>
       (\<exists>es. to_list m h = Some es \<and>
          to_list m' h' = Some (filter (\<lambda>kv. Some kv \<noteq> iterator_deref h pos) es))"
    using erase_keeps [OF inv] by blast
  show ?thesis
    apply (rule conjI [OF c1])
    apply (rule conjI [OF c2])
    apply (rule conjI [OF c3])
    apply (rule conjI [OF c4])
    apply (rule conjI [OF c5])
    apply (rule c6)
    done
qed

theorem dual_structure_invariant_witness:
  "\<exists>m (h :: (nat, nat) heap) r m' h' a m2 h2.
     reachable (\<lambda>k. k) m h \<and> len m = 13 \<and> load m = 14 \<and>
     insert_lhm (\<lambda>k. k) (14, 140) m h = Some (r, m', h') \<and> len m' = 27 \<and>
     step (\<lambda>k. k) (m, h) (m', h') \<and>
     dual_structure (\<lambda>k. k) m h \<and> dual_structure (\<lambda>k. k) m' h' \<and>
     Find (\<lambda>k. k) 3 m h = Some a \<and> a \<noteq> tl_node m \<and>
     Find (\<lambda>k. k) 3 m' h' = Some a \<and> entry h' a = entry h a \<and>
     ChangeSpace (\<lambda>k. k) 1 (m\<lparr>load := 15\<rparr>) h = Some (m2, h2) \<and> len m2 = 27 \<and>
     dual_structure (\<lambda>k. k) m2 h2 \<and> to_list m2 h2 = to_list m h \<and>
     Find (\<lambda>k. k) 3 m2 h2 = Some a"
proof -
  let ?cs = "map (\<lambda>i. Insert i (10 * i)) [0..<14] :: (nat, nat) command list"
  let ?es = "map (\<lambda>i. (i, 10 * i)) [0..<14] :: (nat \<times> nat) list"
  from run_from_ctor [of 0 "\<lambda>k. k" 0 ?cs] obtain m0 and h0 :: "(nat, nat) heap" and m h where
    r: "ctor 0 empty_heap = Some (m0, h0)" "run (\<lambda>k. k) 0 ?cs m0 h0 = Some (m, h)"
       "abs_map (\<lambda>k. k) m h (spec_run ?cs [])"
    by blast
  have ab: "abs_map (\<lambda>k. k) m h ?es" using r(3) unfolding spec_fourteen .
  then have re: "reachable (\<lambda>k. k) m h" by (simp add: abs_map_def)
  have ll: "len m = 13" "load m = 14" using fourteen_full r(1,2) by simp_all
  have ks: "fst ` set ?es = {0..<14}" by (auto simp: image_iff)
  have fresh: "14 \<notin> fst ` set ?es" unfolding ks by simp
  from abs_insert_new [OF ab fresh, of 140] obtain r' m' h' where
    i: "insert_lhm (\<lambda>k. k) (14, 140) m h = Some (r', m', h')"
       "len m' = (if load m > len m then 2 * len m + 1 else len m)"
    by blast
  have l': "len m' = 27" using i(2) ll by simp
  have st: "step (\<lambda>k. k) (m, h) (m', h')" using i(1) by (rule step_insert)
  from abs_mapD [OF ab] obtain as where as: "invl (\<lambda>k. k) m h as" "ents h as = ?es" by blast
  have "3 \<in> fst ` set ?es" unfolding ks by simp
  then have "3 \<in> key h ` set as" using keys_of_ents [OF as(1)] as(2) by simp
  then obtain a where a: "a \<in> set as" "key h a = 3" by auto
  have f: "Find (\<lambda>k. k) 3 m h = Some a" using as(1) a by (rule Find_present)
  have nt: "a \<noteq> tl_node m" using as(1) a(1) by (rule live_not_tl)
  note T = dual_structure_invariant [OF re]
  note T2 = T [THEN conjunct2]
  note T3 = T2 [THEN conjunct2]
  note T4 = T3 [THEN conjunct2, THEN conjunct1]
  have d1: "dual_structure (\<lambda>k. k) m h" using T by (rule conjunct1)
  have d2: "dual_structure (\<lambda>k. k) m' h'" using T2 [THEN conjunct1] st by blast
  have "\<forall>k a. Find (\<lambda>k. k) k m h = Some a \<and> a \<noteq> tl_node m \<longrightarrow>
          Find (\<lambda>k. k) k m' h' = Some a \<and> entry h' a = entry h a"
    using T4 i(1) by blast
  then have k: "Find (\<lambda>k. k) 3 m' h' = Some a \<and> entry h' a = entry h a"
    using f nt by blast
  have "\<exists>m2 h2. ChangeSpace (\<lambda>k. k) 1 (m\<lparr>load := 15\<rparr>) h = Some (m2, h2) \<and>
          len m2 = (if (1::int) = 1 then 2 * len m + 1 else len m div 2) \<and>
          dual_structure (\<lambda>k. k) m2 h2 \<and> to_list m2 h2 = to_list m h \<and>
          (\<forall>k. Find (\<lambda>k. k) k m2 h2 = Find (\<lambda>k. k) k m h) \<and> (\<forall>a. entry h2 a = entry h a)"
    using T3 [THEN conjunct1] by blast
  then obtain m2 h2 where
    c: "ChangeSpace (\<lambda>k. k) 1 (m\<lparr>load := 15\<rparr>) h = Some (m2, h2)" "len m2 = 2 * len m + 1"
       "dual_structure (\<lambda>k. k) m2 h2" "to_list m2 h2 = to_list m h"
       "Find (\<lambda>k. k) 3 m2 h2 = Find (\<lambda>k. k) 3 m h"
    by auto
  have l2: "len m2 = 27" using c(2) ll by simp
  have f2: "Find (\<lambda>k. k) 3 m2 h2 = Some a" using c(5) f by simp
  show ?thesis using re ll i(1) l' st d1 d2 f nt k c(1) l2 c(3) c(4) f2 by blast
qed

lemma one_entry:
  "(do { (m0, h0) \<leftarrow> ctor 0 (empty_heap :: (nat, nat) heap);
         (m, h) \<leftarrow> run (\<lambda>k. k) 0 [Insert 1 10] m0 h0;
         Some (len m, load m) }) = Some (13, 1)"
  by code_simp

lemma fifteen_full:
  "(do { (m0, h0) \<leftarrow> ctor 0 (empty_heap :: (nat, nat) heap);
         (m, h) \<leftarrow> run (\<lambda>k. k) 0 (map (\<lambda>i. Insert i (10 * i)) [0..<15]) m0 h0;
         Some (len m, load m) }) = Some (27, 15)"
  by code_simp

lemma spec_fifteen:
  "spec_run (map (\<lambda>i. Insert i (10 * i)) [0..<15]) ([] :: (nat \<times> nat) list) =
   map (\<lambda>i. (i, 10 * i)) [0..<15]"
  by code_simp

lemma seven_left:
  "(do { (m0, h0) \<leftarrow> ctor 0 (empty_heap :: (nat, nat) heap);
         (m, h) \<leftarrow> run (\<lambda>k. k) 0
            (map (\<lambda>i. Insert i (10 * i)) [0..<15] @ map Erase [0..<8]) m0 h0;
         Some (len m, load m) }) = Some (27, 7)"
  by code_simp

lemma spec_seven:
  "spec_run (map (\<lambda>i. Insert i (10 * i)) [0..<15] @ map Erase [0..<8])
     ([] :: (nat \<times> nat) list) =
   map (\<lambda>i. (i, 10 * i)) [8..<15]"
  by code_simp

lemma state_one:
  "\<exists>m (h :: (nat, nat) heap). abs_map (\<lambda>k. k) m h [(1, 10)] \<and> len m = 13 \<and> load m = 1"
proof -
  from run_from_ctor [of 0 "\<lambda>k. k" 0 "[Insert 1 10]"]
  obtain m0 and h0 :: "(nat, nat) heap" and m h where
    r: "ctor 0 empty_heap = Some (m0, h0)" "run (\<lambda>k. k) 0 [Insert 1 10] m0 h0 = Some (m, h)"
       "abs_map (\<lambda>k. k) m h (spec_run [Insert 1 10] [])"
    by blast
  have "len m = 13" "load m = 1"
    using one_entry unfolding r(1) bind.bind_lunit prod.case r(2) by simp_all
  then show ?thesis using r(3) by auto
qed

lemma state_fourteen:
  "\<exists>m (h :: (nat, nat) heap). abs_map (\<lambda>k. k) m h (map (\<lambda>i. (i, 10 * i)) [0..<14]) \<and>
     len m = 13 \<and> load m = 14"
proof -
  let ?cs = "map (\<lambda>i. Insert i (10 * i)) [0..<14] :: (nat, nat) command list"
  from run_from_ctor [of 0 "\<lambda>k. k" 0 ?cs] obtain m0 and h0 :: "(nat, nat) heap" and m h where
    r: "ctor 0 empty_heap = Some (m0, h0)" "run (\<lambda>k. k) 0 ?cs m0 h0 = Some (m, h)"
       "abs_map (\<lambda>k. k) m h (spec_run ?cs [])"
    by blast
  have "len m = 13" "load m = 14" using fourteen_full r(1,2) by simp_all
  then show ?thesis using r(3) unfolding spec_fourteen by blast
qed

lemma state_fifteen:
  "\<exists>m (h :: (nat, nat) heap). abs_map (\<lambda>k. k) m h (map (\<lambda>i. (i, 10 * i)) [0..<15]) \<and>
     len m = 27 \<and> load m = 15"
proof -
  let ?cs = "map (\<lambda>i. Insert i (10 * i)) [0..<15] :: (nat, nat) command list"
  from run_from_ctor [of 0 "\<lambda>k. k" 0 ?cs] obtain m0 and h0 :: "(nat, nat) heap" and m h where
    r: "ctor 0 empty_heap = Some (m0, h0)" "run (\<lambda>k. k) 0 ?cs m0 h0 = Some (m, h)"
       "abs_map (\<lambda>k. k) m h (spec_run ?cs [])"
    by blast
  have "len m = 27" "load m = 15" using fifteen_full r(1,2) by simp_all
  then show ?thesis using r(3) unfolding spec_fifteen by blast
qed

lemma state_seven:
  "\<exists>m (h :: (nat, nat) heap). abs_map (\<lambda>k. k) m h (map (\<lambda>i. (i, 10 * i)) [8..<15]) \<and>
     len m = 27 \<and> load m = 7"
proof -
  let ?cs = "map (\<lambda>i. Insert i (10 * i)) [0..<15] @ map Erase [0..<8] :: (nat, nat) command list"
  from run_from_ctor [of 0 "\<lambda>k. k" 0 ?cs] obtain m0 and h0 :: "(nat, nat) heap" and m h where
    r: "ctor 0 empty_heap = Some (m0, h0)" "run (\<lambda>k. k) 0 ?cs m0 h0 = Some (m, h)"
       "abs_map (\<lambda>k. k) m h (spec_run ?cs [])"
    by blast
  have "len m = 27" "load m = 7" using seven_left r(1,2) by simp_all
  then show ?thesis using r(3) unfolding spec_seven by blast
qed

lemma keys_upt: "fst ` set (map (\<lambda>i. (i, 10 * i)) [a..<b]) = {a..<b}"
  by (auto simp: image_iff)

subsection \<open>Growth and shrinking on concrete maps\<close>

text \<open>
  Growth on two maps.  The first holds the 14 keys \<open>0, \<dots>, 13\<close> in 13 buckets, so the
  count is greater than the capacity: inserting the new key 14, by \<open>insert\<close> or by
  \<open>operator[]\<close>, grows the capacity to \<open>(13 << 1) | 1 = 27\<close>, which is odd and not a power of
  two.  The second holds one key in 13 buckets: inserting a new key leaves the capacity
  at 13.
\<close>

theorem growth_on_new_key_witness:
  "(\<exists>m (h :: (nat, nat) heap) it m' h' p m2 h2. reachable (\<lambda>k. k) m h \<and>
      to_list m h = Some (map (\<lambda>i. (i, 10 * i)) [0..<14]) \<and>
      14 \<notin> fst ` set (map (\<lambda>i. (i, 10 * i)) [0..<14]) \<and>
      len m = 13 \<and> load m = 14 \<and> load m > len m \<and>
      insert_lhm (\<lambda>k. k) (14, 140) m h = Some ((it, True), m', h') \<and>
      load m' = 15 \<and> len m' = or (push_bit 1 (len m)) 1 \<and> len m' = 27 \<and>
      odd (len m') \<and> (\<forall>j. len m' \<noteq> 2 ^ j) \<and>
      subscript (\<lambda>k. k) 0 14 m h = Some (p, m2, h2) \<and>
      load m2 = 15 \<and> len m2 = or (push_bit 1 (len m)) 1 \<and> len m2 = 27 \<and>
      odd (len m2) \<and> (\<forall>j. len m2 \<noteq> 2 ^ j)) \<and>
   (\<exists>m (h :: (nat, nat) heap) it m' h'. reachable (\<lambda>k. k) m h \<and>
      to_list m h = Some [(1, 10)] \<and> 2 \<notin> fst ` set [(1 :: nat, 10 :: nat)] \<and>
      len m = 13 \<and> load m = 1 \<and> \<not> load m > len m \<and>
      insert_lhm (\<lambda>k. k) (2, 20) m h = Some ((it, True), m', h') \<and>
      load m' = 2 \<and> len m' = 13)"
proof (rule conjI)
  let ?es = "map (\<lambda>i. (i, 10 * i)) [0..<14] :: (nat \<times> nat) list"
  from state_fourteen obtain m and h :: "(nat, nat) heap" where
    s: "abs_map (\<lambda>k. k) m h ?es" "len m = 13" "load m = 14" by blast
  have re: "reachable (\<lambda>k. k) m h" and tl: "to_list m h = Some ?es"
    using s(1) by (simp_all add: abs_map_def)
  have fresh: "14 \<notin> fst ` set ?es" unfolding keys_upt by simp
  have gt: "load m > len m" using s(2,3) by simp
  have g: "or (push_bit 1 (len m)) 1 = 27" using or_push_bit_1 [of "len m"] s(2) by simp
  note G = growth_on_new_key [OF re tl fresh, of 140 0]
  from G [THEN conjunct1] obtain it m' h' where
    i: "insert_lhm (\<lambda>k. k) (14, 140) m h = Some ((it, True), m', h')"
       "load m' = load m + 1"
       "len m' = (if load m > len m then or (push_bit 1 (len m)) 1 else len m)"
       "load m > len m \<longrightarrow> odd (len m') \<and> (\<forall>j. len m' \<noteq> 2 ^ j)"
    by blast
  from G [THEN conjunct2] obtain p m2 h2 where
    u: "subscript (\<lambda>k. k) 0 14 m h = Some (p, m2, h2)"
       "load m2 = load m + 1"
       "len m2 = (if load m > len m then or (push_bit 1 (len m)) 1 else len m)"
       "load m > len m \<longrightarrow> odd (len m2) \<and> (\<forall>j. len m2 \<noteq> 2 ^ j)"
    by blast
  have i2: "load m' = 15" using i(2) s(3) by simp
  have i3: "len m' = or (push_bit 1 (len m)) 1" using i(3) gt by simp
  have i3': "len m' = 27" using i3 g by simp
  have i4: "odd (len m')" "\<forall>j. len m' \<noteq> 2 ^ j" using i(4) gt by blast+
  have u2: "load m2 = 15" using u(2) s(3) by simp
  have u3: "len m2 = or (push_bit 1 (len m)) 1" using u(3) gt by simp
  have u3': "len m2 = 27" using u3 g by simp
  have u4: "odd (len m2)" "\<forall>j. len m2 \<noteq> 2 ^ j" using u(4) gt by blast+
  show "\<exists>m (h :: (nat, nat) heap) it m' h' p m2 h2. reachable (\<lambda>k. k) m h \<and>
      to_list m h = Some (map (\<lambda>i. (i, 10 * i)) [0..<14]) \<and>
      14 \<notin> fst ` set (map (\<lambda>i. (i, 10 * i)) [0..<14]) \<and>
      len m = 13 \<and> load m = 14 \<and> load m > len m \<and>
      insert_lhm (\<lambda>k. k) (14, 140) m h = Some ((it, True), m', h') \<and>
      load m' = 15 \<and> len m' = or (push_bit 1 (len m)) 1 \<and> len m' = 27 \<and>
      odd (len m') \<and> (\<forall>j. len m' \<noteq> 2 ^ j) \<and>
      subscript (\<lambda>k. k) 0 14 m h = Some (p, m2, h2) \<and>
      load m2 = 15 \<and> len m2 = or (push_bit 1 (len m)) 1 \<and> len m2 = 27 \<and>
      odd (len m2) \<and> (\<forall>j. len m2 \<noteq> 2 ^ j)"
    using re tl fresh s(2,3) gt i(1) i2 i3 i3' i4 u(1) u2 u3 u3' u4 by blast
next
  from state_one obtain m and h :: "(nat, nat) heap" where
    s: "abs_map (\<lambda>k. k) m h [(1, 10)]" "len m = 13" "load m = 1" by blast
  have re: "reachable (\<lambda>k. k) m h" and tl: "to_list m h = Some [(1, 10)]"
    using s(1) by (simp_all add: abs_map_def)
  have fresh: "2 \<notin> fst ` set [(1 :: nat, 10 :: nat)]" by simp
  have le: "\<not> load m > len m" using s(2,3) by simp
  note G = growth_on_new_key [OF re tl fresh, of 20 0]
  from G [THEN conjunct1] obtain it m' h' where
    i: "insert_lhm (\<lambda>k. k) (2, 20) m h = Some ((it, True), m', h')"
       "load m' = load m + 1"
       "len m' = (if load m > len m then or (push_bit 1 (len m)) 1 else len m)"
    by blast
  have i2: "load m' = 2" using i(2) s(3) by simp
  have i3: "len m' = 13" using i(3) le s(2) by simp
  show "\<exists>m (h :: (nat, nat) heap) it m' h'. reachable (\<lambda>k. k) m h \<and>
      to_list m h = Some [(1, 10)] \<and> 2 \<notin> fst ` set [(1 :: nat, 10 :: nat)] \<and>
      len m = 13 \<and> load m = 1 \<and> \<not> load m > len m \<and>
      insert_lhm (\<lambda>k. k) (2, 20) m h = Some ((it, True), m', h') \<and>
      load m' = 2 \<and> len m' = 13"
    using re tl fresh s(2,3) le i(1) i2 i3 by blast
qed

text \<open>
  Shrinking on three maps.  The first holds the 7 keys \<open>8, \<dots>, 14\<close> in 27 buckets:
  erasing the key 8 leaves 6 entries, \<open>4 * 6 < 27\<close>, and the capacity is halved to
  \<open>27 >> 1 = 13\<close>.  The second holds 15 keys in 27 buckets: erasing one leaves 14
  entries and the capacity 27.  The third holds one key in 13 buckets: erasing it leaves
  no entry, and the capacity stays at the floor 13.
\<close>

theorem shrink_on_erase_and_floor_witness:
  "(\<exists>m (h :: (nat, nat) heap) pos m' h'. reachable (\<lambda>k. k) m h \<and>
      len m = 27 \<and> load m = 7 \<and> find_lhm (\<lambda>k. k) 8 m h = Some pos \<and>
      erase (\<lambda>k. k) pos m h = Some (Inr (), m', h') \<and> load m' = 6 \<and>
      4 * load m' < len m \<and> LEN < len m \<and>
      len m' = drop_bit 1 (len m) \<and> len m' = 13 \<and> LEN \<le> len m') \<and>
   (\<exists>m (h :: (nat, nat) heap) pos m' h'. reachable (\<lambda>k. k) m h \<and>
      len m = 27 \<and> load m = 15 \<and> find_lhm (\<lambda>k. k) 0 m h = Some pos \<and>
      erase (\<lambda>k. k) pos m h = Some (Inr (), m', h') \<and> load m' = 14 \<and>
      \<not> 4 * load m' < len m \<and> LEN < len m \<and> len m' = 27) \<and>
   (\<exists>m (h :: (nat, nat) heap) pos m' h'. reachable (\<lambda>k. k) m h \<and>
      len m = 13 \<and> load m = 1 \<and> find_lhm (\<lambda>k. k) 1 m h = Some pos \<and>
      erase (\<lambda>k. k) pos m h = Some (Inr (), m', h') \<and> load m' = 0 \<and>
      4 * load m' < len m \<and> \<not> LEN < len m \<and> len m' = 13 \<and> LEN \<le> len m')"
proof (intro conjI)
  let ?es = "map (\<lambda>i. (i, 10 * i)) [8..<15] :: (nat \<times> nat) list"
  from state_seven obtain m and h :: "(nat, nat) heap" where
    s: "abs_map (\<lambda>k. k) m h ?es" "len m = 27" "load m = 7" by blast
  have re: "reachable (\<lambda>k. k) m h" using s(1) by (simp add: abs_map_def)
  have mem: "8 \<in> fst ` set ?es" unfolding keys_upt by simp
  from abs_erase_key [OF s(1) mem] obtain pos m' h' where
    e: "find_lhm (\<lambda>k. k) 8 m h = Some pos" "erase (\<lambda>k. k) pos m h = Some (Inr (), m', h')"
    by blast
  note T = shrink_on_erase_and_floor [OF re]
  have L: "LEN = 13" using T by (rule conjunct1)
  from T [THEN conjunct2, THEN conjunct2] e(2) have
    r: "load m' = load m - 1"
       "len m' = (if 4 * load m' < len m \<and> LEN < len m then drop_bit 1 (len m) else len m)"
       "LEN \<le> len m'"
    by blast+
  have r1: "load m' = 6" using r(1) s(3) by simp
  have c: "4 * load m' < len m" "LEN < len m" using r1 s(2) L by simp_all
  have r2: "len m' = drop_bit 1 (len m)" using r(2) c by simp
  have r3: "len m' = 13" using r2 s(2) by (simp add: drop_bit_eq_div)
  show "\<exists>m (h :: (nat, nat) heap) pos m' h'. reachable (\<lambda>k. k) m h \<and>
      len m = 27 \<and> load m = 7 \<and> find_lhm (\<lambda>k. k) 8 m h = Some pos \<and>
      erase (\<lambda>k. k) pos m h = Some (Inr (), m', h') \<and> load m' = 6 \<and>
      4 * load m' < len m \<and> LEN < len m \<and>
      len m' = drop_bit 1 (len m) \<and> len m' = 13 \<and> LEN \<le> len m'"
    using re s(2,3) e r1 c r2 r3 r(3) by blast
next
  let ?es = "map (\<lambda>i. (i, 10 * i)) [0..<15] :: (nat \<times> nat) list"
  from state_fifteen obtain m and h :: "(nat, nat) heap" where
    s: "abs_map (\<lambda>k. k) m h ?es" "len m = 27" "load m = 15" by blast
  have re: "reachable (\<lambda>k. k) m h" using s(1) by (simp add: abs_map_def)
  have mem: "0 \<in> fst ` set ?es" unfolding keys_upt by simp
  from abs_erase_key [OF s(1) mem] obtain pos m' h' where
    e: "find_lhm (\<lambda>k. k) 0 m h = Some pos" "erase (\<lambda>k. k) pos m h = Some (Inr (), m', h')"
    by blast
  note T = shrink_on_erase_and_floor [OF re]
  have L: "LEN = 13" using T by (rule conjunct1)
  from T [THEN conjunct2, THEN conjunct2] e(2) have
    r: "load m' = load m - 1"
       "len m' = (if 4 * load m' < len m \<and> LEN < len m then drop_bit 1 (len m) else len m)"
    by blast+
  have r1: "load m' = 14" using r(1) s(3) by simp
  have c: "\<not> 4 * load m' < len m" "LEN < len m" using r1 s(2) L by simp_all
  have r2: "len m' = 27" using r(2) c s(2) by simp
  show "\<exists>m (h :: (nat, nat) heap) pos m' h'. reachable (\<lambda>k. k) m h \<and>
      len m = 27 \<and> load m = 15 \<and> find_lhm (\<lambda>k. k) 0 m h = Some pos \<and>
      erase (\<lambda>k. k) pos m h = Some (Inr (), m', h') \<and> load m' = 14 \<and>
      \<not> 4 * load m' < len m \<and> LEN < len m \<and> len m' = 27"
    using re s(2,3) e r1 c r2 by blast
next
  from state_one obtain m and h :: "(nat, nat) heap" where
    s: "abs_map (\<lambda>k. k) m h [(1, 10)]" "len m = 13" "load m = 1" by blast
  have re: "reachable (\<lambda>k. k) m h" using s(1) by (simp add: abs_map_def)
  have mem: "1 \<in> fst ` set [(1 :: nat, 10 :: nat)]" by simp
  from abs_erase_key [OF s(1) mem] obtain pos m' h' where
    e: "find_lhm (\<lambda>k. k) 1 m h = Some pos" "erase (\<lambda>k. k) pos m h = Some (Inr (), m', h')"
    by blast
  note T = shrink_on_erase_and_floor [OF re]
  have L: "LEN = 13" using T by (rule conjunct1)
  from T [THEN conjunct2, THEN conjunct2] e(2) have
    r: "load m' = load m - 1"
       "len m' = (if 4 * load m' < len m \<and> LEN < len m then drop_bit 1 (len m) else len m)"
       "LEN \<le> len m'"
    by blast+
  have r1: "load m' = 0" using r(1) s(3) by simp
  have c: "4 * load m' < len m" "\<not> LEN < len m" using r1 s(2) L by simp_all
  have r2: "len m' = 13" using r(2) c s(2) by simp
  show "\<exists>m (h :: (nat, nat) heap) pos m' h'. reachable (\<lambda>k. k) m h \<and>
      len m = 13 \<and> load m = 1 \<and> find_lhm (\<lambda>k. k) 1 m h = Some pos \<and>
      erase (\<lambda>k. k) pos m h = Some (Inr (), m', h') \<and> load m' = 0 \<and>
      4 * load m' < len m \<and> \<not> LEN < len m \<and> len m' = 13 \<and> LEN \<le> len m'"
    using re s(2,3) e r1 c r2 r(3) by blast
qed

end
